theory Spec2Isabelle
  imports Main "HOL-Library.Sublist"
begin

section \<open>JavaScript values and outcomes\<close>

text \<open>
  A JavaScript value as far as the pipeline looks at it: \<open>undefined\<close>, a string, an
  \<open>Error\<close> object with its message (as \<open>Error(message)\<close> makes it), or any other value,
  which is opaque. A call either raises a value (\<open>Inl\<close>) or returns one (\<open>Inr\<close>).
\<close>

datatype 'v jsval = Undefined | Str string | Error string | Val 'v

type_synonym 'v outcome = "'v jsval + 'v jsval"

text \<open>
  The string that a template literal makes of a value, \<open>`${v}`\<close>: \<open>undefined\<close> prints as
  its name, a string as itself, an \<open>Error\<close> as \<open>Error.prototype.toString\<close> prints it. What
  the conversion of another value gives, or raises, is the parameter \<open>conv\<close>.
\<close>

definition template :: "('v \<Rightarrow> 'v jsval + string) \<Rightarrow> 'v jsval \<Rightarrow> 'v jsval + string" where
  "template conv v =
     (case v of
        Undefined \<Rightarrow> Inr ''undefined''
      | Str str \<Rightarrow> Inr str
      | Error message \<Rightarrow> Inr (if message = [] then ''Error'' else ''Error: '' @ message)
      | Val x \<Rightarrow> conv x)"

text \<open>\<open>args[0]\<close> of a rest-parameter array: \<open>undefined\<close> when no argument was passed.\<close>

fun arg0 :: "'v jsval list \<Rightarrow> 'v jsval" where
  "arg0 [] = Undefined"
| "arg0 (a # _) = a"

section \<open>packages/core/timeline/timeline.ts\<close>

subsection \<open>Observer registries as heap objects\<close>

text \<open>
  \<open>ObserverCollection = Record<string, ValidObserver[]>\<close>. Two Timelines may hold the
  same registry object, so registries live in a store and a Timeline holds an address.
  The arrays inside a registry are only ever created by \<open>addObserver\<close> or by
  \<open>cloneDeep\<close>, so no array is shared between two registries and a registry is modelled
  as a value: a map from moment names to observer lists, which holds the properties of
  the object itself. The subscription functions below are modelled for the moment names
  that \<open>Object.prototype\<close> does not have (for the others \<open>Reflect.has\<close> is true of a
  registry that does not hold them); \<open>emit\<close> is modelled for every name.
\<close>

type_synonym 'o ObserverCollection = "string \<rightharpoonup> 'o list"

record 'o store =
  cells :: "nat \<Rightarrow> 'o ObserverCollection"
  fresh :: nat

definition alloc :: "'o store \<Rightarrow> 'o ObserverCollection \<Rightarrow> nat \<times> 'o store" where
  "alloc s r = (fresh s, s\<lparr>cells := (cells s)(fresh s := r), fresh := Suc (fresh s)\<rparr>)"

text \<open>\<open>cloneDeep(target.observers)\<close>: a new object with a copy of every list.\<close>

definition cloneDeep :: "'o store \<Rightarrow> nat \<Rightarrow> nat \<times> 'o store" where
  "cloneDeep s a = alloc s (cells s a)"

datatype ObserverAddBehavior = Add | Replace | Prepend

text \<open>What a caller may pass as a handler: a function, or something \<open>isFunc\<close> rejects.\<close>

datatype 'o handler = Fn 'o | NotFn

datatype timeline_error = ObserversMustBeFunctions

text \<open>
  \<open>addObserver(target, moment, observer, addBehavior)\<close>, on the registry at address
  \<open>a\<close>. The source returns \<open>target[moment]\<close>, which no caller in the file uses; the model
  returns the updated store.
\<close>

definition addObserver ::
  "'o store \<Rightarrow> nat \<Rightarrow> string \<Rightarrow> 'o handler \<Rightarrow> ObserverAddBehavior \<Rightarrow> timeline_error + 'o store" where
  "addObserver s a moment observer addBehavior =
     (case observer of
        NotFn \<Rightarrow> Inl ObserversMustBeFunctions
      | Fn ob \<Rightarrow>
          (case cells s a moment of
             None \<Rightarrow> Inr (s\<lparr>cells := (cells s)(a := (cells s a)(moment \<mapsto> [ob]))\<rparr>)
           | Some os \<Rightarrow>
               Inr (s\<lparr>cells := (cells s)(a := (cells s a)(moment \<mapsto>
                      (case addBehavior of
                         Add \<Rightarrow> os @ [ob]
                       | Prepend \<Rightarrow> ob # os
                       | Replace \<Rightarrow> [ob])))\<rparr>)))"

subsection \<open>The Timeline class\<close>

text \<open>
  What \<open>emit\<close> finds as the observers of a point: an array of observers, or, for a name
  that the registry does not hold itself but inherits from \<open>Object.prototype\<close>, the
  inherited member, which is not an array.
\<close>

datatype 'o observers_value = Array "'o list" | Inherited

fun isArray :: "'o observers_value \<Rightarrow> bool" where
  "isArray (Array os) = True"
| "isArray Inherited = False"

fun elements :: "'o observers_value \<Rightarrow> 'o list" where
  "elements (Array os) = os"
| "elements Inherited = []"

text \<open>
  A moment is a dispatch function from the observers that \<open>emit\<close> hands it and the
  arguments to an outcome. \<open>parentObservers\<close> is \<open>None\<close> while the field is undefined or
  null.
\<close>

type_synonym ('o, 'v) moment = "'o observers_value \<Rightarrow> 'v jsval list \<Rightarrow> 'v outcome"

record ('o, 'v) Timeline =
  moments :: "string \<rightharpoonup> ('o, 'v) moment"
  observers :: nat
  inheritingObservers :: bool
  parentObservers :: "nat option"

text \<open>The constructor: \<open>obs\<close> is the optional second argument.\<close>

definition Timeline_new ::
  "(string \<rightharpoonup> ('o, 'v) moment) \<Rightarrow> nat option \<Rightarrow> 'o store \<Rightarrow> ('o, 'v) Timeline \<times> 'o store" where
  "Timeline_new ms obs s =
     (case obs of
        Some a \<Rightarrow>
          (\<lparr>moments = ms, observers = a, inheritingObservers = True, parentObservers = None\<rparr>, s)
      | None \<Rightarrow>
          (let (a, s') = alloc s Map.empty
           in (\<lparr>moments = ms, observers = a, inheritingObservers = False,
                parentObservers = None\<rparr>, s')))"

text \<open>
  \<open>timeline.on[p](handler)\<close>. The clone happens before \<open>addObserver\<close> checks the
  handler, so it persists when the check raises: the result carries the Timeline and the
  store as they are left, and the error if one was raised.
\<close>

definition on_add ::
  "('o, 'v) Timeline \<Rightarrow> string \<Rightarrow> 'o handler \<Rightarrow> 'o store
     \<Rightarrow> ('o, 'v) Timeline \<times> 'o store \<times> timeline_error option" where
  "on_add t p h s =
     (let (t1, s1) =
            (if inheritingObservers t then
               (let (a, s') = cloneDeep s (observers t)
                in (t\<lparr>parentObservers := Some (observers t), observers := a,
                       inheritingObservers := False\<rparr>, s'))
             else (t, s))
      in case addObserver s1 (observers t1) p h Add of
           Inl e \<Rightarrow> (t1, s1, Some e)
         | Inr s2 \<Rightarrow> (t1, s2, None))"

text \<open>\<open>timeline.on[p].replace(handler)\<close> and \<open>timeline.on[p].prepend(handler)\<close>.\<close>

definition on_replace ::
  "('o, 'v) Timeline \<Rightarrow> string \<Rightarrow> 'o handler \<Rightarrow> 'o store
     \<Rightarrow> ('o, 'v) Timeline \<times> 'o store \<times> timeline_error option" where
  "on_replace t p h s =
     (case addObserver s (observers t) p h Replace of
        Inl e \<Rightarrow> (t, s, Some e)
      | Inr s2 \<Rightarrow> (t, s2, None))"

definition on_prepend ::
  "('o, 'v) Timeline \<Rightarrow> string \<Rightarrow> 'o handler \<Rightarrow> 'o store
     \<Rightarrow> ('o, 'v) Timeline \<times> 'o store \<times> timeline_error option" where
  "on_prepend t p h s =
     (case addObserver s (observers t) p h Prepend of
        Inl e \<Rightarrow> (t, s, Some e)
      | Inr s2 \<Rightarrow> (t, s2, None))"

text \<open>\<open>timeline.on[p].toArray()\<close>: a copy of the list, or the empty list.\<close>

definition on_toArray :: "('o, 'v) Timeline \<Rightarrow> string \<Rightarrow> 'o store \<Rightarrow> 'o list" where
  "on_toArray t p s = (case cells s (observers t) p of Some os \<Rightarrow> os | None \<Rightarrow> [])"

text \<open>\<open>timeline.clear[p]()\<close>: truncates the list in place.\<close>

definition clear :: "('o, 'v) Timeline \<Rightarrow> string \<Rightarrow> 'o store \<Rightarrow> bool \<times> 'o store" where
  "clear t p s =
     (case cells s (observers t) p of
        Some os \<Rightarrow>
          (True, s\<lparr>cells := (cells s)(observers t := (cells s (observers t))(p \<mapsto> []))\<rparr>)
      | None \<Rightarrow> (False, s))"

definition resetObservers :: "('o, 'v) Timeline \<Rightarrow> ('o, 'v) Timeline" where
  "resetObservers t =
     (case parentObservers t of
        Some a \<Rightarrow>
          (if \<not> inheritingObservers t
           then t\<lparr>observers := a, inheritingObservers := True, parentObservers := None\<rparr>
           else t)
      | None \<Rightarrow> t)"

subsection \<open>Dispatch\<close>

text \<open>
  Modelled from the spec: \<open>broadcast()\<close> of \<open>moments.js\<close>, which is not among the
  sources. The spec describes it as the default policy that calls every observer for a
  point in order and returns nothing. \<open>call\<close> runs one observer on the arguments; an
  observer that raises ends the loop with that exception.
\<close>

fun broadcast ::
  "('o \<Rightarrow> 'v jsval list \<Rightarrow> 'v outcome) \<Rightarrow> 'o list \<Rightarrow> 'v jsval list \<Rightarrow> 'v outcome" where
  "broadcast call [] args = Inr Undefined"
| "broadcast call (ob # obs) args =
     (case call ob args of
        Inl e \<Rightarrow> Inl e
      | Inr _ \<Rightarrow> broadcast call obs args)"

text \<open>
  What the platform gives a Timeline:
  \<^item> \<open>run_observer ob args\<close>: running the observer \<open>ob\<close> on the arguments;
  \<^item> \<open>Object_prototype\<close>: the members of \<open>Object.prototype\<close>, which the plain objects
    \<open>observers\<close> and \<open>moments\<close> inherit and \<open>Reflect.has\<close> and \<open>Reflect.get\<close> see. A
    member is given by what \<open>Reflect.apply(member, this, [observers, ...args])\<close> does: a
    member that is not a function raises the \<open>TypeError\<close> of \<open>Reflect.apply\<close>;
  \<^item> \<open>toString\<close>: the string conversion of the opaque values.
\<close>

record ('o, 'v) platform =
  run_observer :: "'o \<Rightarrow> 'v jsval list \<Rightarrow> 'v outcome"
  Object_prototype :: "string \<rightharpoonup> ('o, 'v) moment"
  toString :: "'v \<Rightarrow> 'v jsval + string"

text \<open>
  The two lookups of \<open>emit\<close>: the observers of a point
  (\<open>Reflect.has(target.observers, p) ? Reflect.get(target.observers, p) : []\<close>) and its
  dispatch function
  (\<open>Reflect.has(target.moments, p) ? Reflect.get(target.moments, p) : broadcast()\<close>).
  Both see the properties of the object itself first and those of \<open>Object.prototype\<close>
  next. The default dispatch is therefore only reached for a name that
  \<open>Object.prototype\<close> does not have, and for such a name the observers are an array.
\<close>

definition observers_for ::
  "('o, 'v) platform \<Rightarrow> 'o store \<Rightarrow> ('o, 'v) Timeline \<Rightarrow> string \<Rightarrow> 'o observers_value" where
  "observers_for pf s t p =
     (case cells s (observers t) p of
        Some os \<Rightarrow> Array os
      | None \<Rightarrow> (case Object_prototype pf p of Some member \<Rightarrow> Inherited | None \<Rightarrow> Array []))"

definition moment_for ::
  "('o, 'v) platform \<Rightarrow> ('o, 'v) Timeline \<Rightarrow> string \<Rightarrow> ('o, 'v) moment" where
  "moment_for pf t p =
     (case moments t p of
        Some m \<Rightarrow> m
      | None \<Rightarrow>
          (case Object_prototype pf p of
             Some member \<Rightarrow> member
           | None \<Rightarrow> (\<lambda>obs. broadcast (run_observer pf) (elements obs))))"

text \<open>
  \<open>timeline.emit[p](...args)\<close>. The result is the outcome together with the list of
  \<open>emit\<close> invocations made, this one first. The \<open>__once\<close> branch only deletes a property
  that nothing sets and writes to the console; it is left out. The \<open>Error\<close> thrown for an
  \<open>error\<close> without observers holds the string conversion of \<open>args[0]\<close>, and when that
  conversion raises, its exception is what is thrown. In the \<open>catch\<close> branch the value of
  \<open>this.emit.error(e)\<close> is dropped: when it returns, the invocation returns \<open>undefined\<close>.
  Observers and moments are functions of their arguments: they do not call back into
  the Timeline.
\<close>

function emit ::
  "('o, 'v) platform \<Rightarrow> 'o store \<Rightarrow> ('o, 'v) Timeline \<Rightarrow> string \<Rightarrow> 'v jsval list
     \<Rightarrow> 'v outcome \<times> (string \<times> 'v jsval list) list" where
  "emit pf s t p args =
     (let obs = observers_for pf s t p
      in if p = ''error'' \<and> (\<not> isArray obs \<or> length (elements obs) < 1)
         then (case template (toString pf) (arg0 args) of
                 Inl e \<Rightarrow> (Inl e, [(p, args)])
               | Inr str \<Rightarrow> (Inl (Error (''Unhandled Exception: '' @ str)), [(p, args)]))
         else (case moment_for pf t p obs args of
                 Inr r \<Rightarrow> (Inr r, [(p, args)])
               | Inl e \<Rightarrow>
                   (if p \<noteq> ''error''
                    then (case emit pf s t ''error'' [e] of
                            (Inl e', calls) \<Rightarrow> (Inl e', (p, args) # calls)
                          | (Inr _, calls) \<Rightarrow> (Inr Undefined, (p, args) # calls))
                    else (Inl e, [(p, args)]))))"
  by pat_completeness auto
termination
  by (relation "measure (\<lambda>(pf, s, t, p, args). if p = ''error'' then 0 else 1)") auto

declare emit.simps [simp del]

section \<open>packages/graph/invitations/index.ts\<close>

text \<open>
  The getter installed on \<open>GraphRest.prototype\<close>. \<open>GraphRest.create\<close> is not among the
  sources: it is a parameter, and it may raise. The getter calls it, drops what it
  returns, and ends without a \<open>return\<close>.
\<close>

definition invitations_get ::
  "('this \<Rightarrow> 'factory \<Rightarrow> 'v jsval + 'obj) \<Rightarrow> 'factory \<Rightarrow> 'this \<Rightarrow> 'v jsval + 'obj jsval" where
  "invitations_get create Invitations this =
     (case create this Invitations of
        Inl e \<Rightarrow> Inl e
      | Inr _ \<Rightarrow> Inr Undefined)"

section \<open>packages/graph/batch.ts\<close>

subsection \<open>Strings and numbers of the platform\<close>

text \<open>
  Strings are lists of code units; the inputs considered are ASCII.
  \<open>indexOf s pat\<close> is \<open>s.indexOf(pat)\<close>, with \<open>None\<close> for \<open>-1\<close>; \<open>url.substr(n)\<close> is
  \<open>drop n url\<close>.
\<close>

fun indexOf :: "string \<Rightarrow> string \<Rightarrow> nat option" where
  "indexOf [] pat = (if pat = [] then Some 0 else None)"
| "indexOf (c # cs) pat =
     (if prefix pat (c # cs) then Some 0 else map_option Suc (indexOf cs pat))"

text \<open>
  \<open>`${n}`\<close> for a non-negative integer below \<open>10^21\<close>: its decimal digits. The numbers
  printed are array positions plus one.
\<close>

definition digit_char :: "nat \<Rightarrow> char" where
  "digit_char d = char_of (48 + d)"

fun numToString :: "nat \<Rightarrow> string" where
  "numToString n =
     (if n < 10 then [digit_char n] else numToString (n div 10) @ [digit_char (n mod 10)])"

declare numToString.simps [simp del]

text \<open>
  \<open>parseInt(s, 10)\<close>: leading white space is skipped, one sign is read, then the longest
  run of decimal digits; \<open>None\<close> is \<open>NaN\<close>. The result is the mathematical integer: the
  source only uses it as an array position, where every value from \<open>2^32 - 1\<close> on is
  treated alike, so the rounding of integers beyond \<open>2^53\<close> makes no difference.
\<close>

definition isWhiteSpace :: "char \<Rightarrow> bool" where
  "isWhiteSpace c = ((of_char c :: nat) \<in> {9, 10, 11, 12, 13, 32})"

definition isDigit :: "char \<Rightarrow> bool" where
  "isDigit c = (48 \<le> (of_char c :: nat) \<and> (of_char c :: nat) \<le> 57)"

definition digit_value :: "char \<Rightarrow> nat" where
  "digit_value c = of_char c - 48"

definition digits_value :: "string \<Rightarrow> nat" where
  "digits_value ds = foldl (\<lambda>acc c. 10 * acc + digit_value c) 0 ds"

definition parseInt10 :: "string \<Rightarrow> int option" where
  "parseInt10 s =
     (let s1 = dropWhile isWhiteSpace s;
          neg = (s1 \<noteq> [] \<and> hd s1 = CHR ''-'');
          s2 = (if s1 \<noteq> [] \<and> (hd s1 = CHR ''-'' \<or> hd s1 = CHR ''+'') then tl s1 else s1);
          z = takeWhile isDigit s2
      in if z = [] then None
         else Some (if neg then - int (digits_value z) else int (digits_value z)))"

subsection \<open>The data of a batch\<close>

text \<open>
  \<open>RequestInit\<close> as far as \<open>formatRequests\<close> reads it. \<open>init_headers\<close> is a plain
  object of header names and values, which is what the spread \<open>{...init.headers}\<close>
  copies.
\<close>

record RequestInit =
  init_method :: "string option"
  init_headers :: "string \<rightharpoonup> string"
  init_body :: "string option"

text \<open>
  \<open>RequestRecord\<close>: the queryable, the url, the init values, and the \<open>resolve\<close> and
  \<open>reject\<close> functions of the promise made for the operation, which are named by the
  number of that promise.
\<close>

record 'q RequestRecord =
  rr_queryable :: 'q
  rr_url :: string
  rr_init :: RequestInit
  rr_promise :: nat

record 'j IGraphBatchRequestFragment =
  fid :: string
  fmethod :: "string option"
  furl :: string
  fheaders :: "string \<rightharpoonup> string"
  fbody :: "'j option"

text \<open>
  A fragment of the decoded response, as far as the decoder reads it. The status is an
  integer; \<open>rheaders\<close> lists the names and values of \<open>headers\<close> (the entries of the object,
  or the pairs of the array form); \<open>rbody\<close> is \<open>None\<close> when the fragment has no \<open>body\<close>.
\<close>

record 'j IGraphBatchResponseFragment =
  rid :: string
  rstatus :: int
  rstatusText :: "string option"
  rheaders :: "(string \<times> string) list"
  rbody :: "'j option"

text \<open>\<open>gr_error\<close> holds the code and the message of the top-level \<open>error\<close> object.\<close>

record 'j IGraphBatchResponse =
  gr_error :: "(string \<times> string) option"
  gr_responses :: "'j IGraphBatchResponseFragment list"
  gr_nextLink :: "string option"

text \<open>
  What the decoder builds for a fragment: \<open>new Response()\<close> for status 204, and
  \<open>new Response(JSON.stringify(response.body), response)\<close> otherwise, which keeps the
  body, the status, the status text and the headers of the fragment.
\<close>

datatype 'j Response = EmptyResponse | BodyResponse "'j IGraphBatchResponseFragment"

text \<open>
  One position of the array \<open>parsedResponses\<close>: a hole (a position below \<open>length\<close>
  that was never written), \<open>null\<close>, or a \<open>Response\<close>.
\<close>

datatype 'j cell = Hole | Null | Resp "'j Response"

record 'j ParsedGraphResponse =
  pr_nextLink :: "string option"
  pr_responses :: "'j cell list"

text \<open>
  What can be raised: the \<open>Error\<close> built from a top-level error's code and message; the
  platform's errors, which are the \<open>SyntaxError\<close> of \<open>JSON.parse\<close> and the \<open>RangeError\<close>
  and the \<open>TypeError\<close> of the \<open>Response\<close> constructor; and whatever the collaborators
  raise.
\<close>

datatype platform_error = SyntaxError | TypeError | RangeError

datatype 'x batch_error =
  BatchProcessingError string string | Platform platform_error | Raised 'x

text \<open>
  The collaborators of a batch, none of them among the sources:
  \<^item> \<open>isUrlAbsolute\<close> of \<open>@pnp/core\<close>;
  \<^item> \<open>log_raises q\<close>: what \<open>queryable.log(...)\<close> raises, if it does;
  \<^item> \<open>JSON_parse\<close>: \<open>JSON.parse\<close>, \<open>None\<close> when it raises its \<open>SyntaxError\<close>;
  \<^item> \<open>transport k frags\<close>: what the \<open>k\<close>-th transport call gives for the aggregate
    request \<open>{requests: frags}\<close>: an exception or the decoded JSON of the response;
  \<^item> \<open>latency k\<close>: how many queued promise callbacks run while the \<open>k\<close>-th transport
    call is awaited;
  \<^item> \<open>resolve_raises p c\<close> and \<open>reject_raises p x\<close>: what the \<open>resolve\<close> and \<open>reject\<close>
    functions of promise \<open>p\<close> raise on that argument, if they do (the functions a
    \<open>Promise\<close> constructor hands out never do).
\<close>

record ('q, 'j, 'x) env =
  isUrlAbsolute :: "string \<Rightarrow> bool"
  log_raises :: "'q \<Rightarrow> 'x option"
  JSON_parse :: "string \<Rightarrow> 'j option"
  transport :: "nat \<Rightarrow> 'j IGraphBatchRequestFragment list \<Rightarrow> 'x + 'j IGraphBatchResponse"
  latency :: "nat \<Rightarrow> nat"
  resolve_raises :: "nat \<Rightarrow> 'j cell \<Rightarrow> 'x option"
  reject_raises :: "nat \<Rightarrow> 'x \<Rightarrow> 'x option"

subsection \<open>Encoding\<close>

definition makeUrlRelative :: "(string \<Rightarrow> bool) \<Rightarrow> string \<Rightarrow> string" where
  "makeUrlRelative isAbs url =
     (if \<not> isAbs url then url
      else (case indexOf url ''/v1.0/'' of
              None \<Rightarrow>
                (case indexOf url ''/beta/'' of
                   Some index \<Rightarrow> drop (index + 6) url
                 | None \<Rightarrow> url)
            | Some index \<Rightarrow> drop (index + 5) url))"

text \<open>
  The callback of \<open>requests.map\<close> in \<open>formatRequests\<close>, for the element at \<open>index\<close>.
  The log message and the batch id play no part in the result.
\<close>

definition formatRequest ::
  "('q, 'j, 'x) env \<Rightarrow> nat \<Rightarrow> 'q RequestRecord
     \<Rightarrow> 'x batch_error + 'j IGraphBatchRequestFragment" where
  "formatRequest env index reqInfo =
     (case log_raises env (rr_queryable reqInfo) of
        Some x \<Rightarrow> Inl (Raised x)
      | None \<Rightarrow>
          (let init = rr_init reqInfo;
               hs = (if init_method init \<noteq> Some ''GET''
                     then (init_headers init)(''Content-Type'' \<mapsto> ''application/json'')
                     else init_headers init)
           in case init_body init of
                None \<Rightarrow>
                  Inr \<lparr>fid = numToString (Suc index), fmethod = init_method init,
                       furl = makeUrlRelative (isUrlAbsolute env) (rr_url reqInfo),
                       fheaders = hs, fbody = None\<rparr>
              | Some b \<Rightarrow>
                  (case JSON_parse env b of
                     None \<Rightarrow> Inl (Platform SyntaxError)
                   | Some j \<Rightarrow>
                       Inr \<lparr>fid = numToString (Suc index), fmethod = init_method init,
                            furl = makeUrlRelative (isUrlAbsolute env) (rr_url reqInfo),
                            fheaders = hs, fbody = Some j\<rparr>)))"

text \<open>\<open>Array.prototype.map\<close> with a callback that may raise: the first exception ends it.\<close>

fun map_from :: "(nat \<Rightarrow> 'a \<Rightarrow> 'e + 'b) \<Rightarrow> nat \<Rightarrow> 'a list \<Rightarrow> 'e + 'b list" where
  "map_from f i [] = Inr []"
| "map_from f i (x # xs) =
     (case f i x of
        Inl e \<Rightarrow> Inl e
      | Inr y \<Rightarrow> (case map_from f (Suc i) xs of Inl e \<Rightarrow> Inl e | Inr ys \<Rightarrow> Inr (y # ys)))"

definition formatRequests ::
  "('q, 'j, 'x) env \<Rightarrow> 'q RequestRecord list
     \<Rightarrow> 'x batch_error + 'j IGraphBatchRequestFragment list" where
  "formatRequests env requests = map_from (formatRequest env) 0 requests"

subsection \<open>Decoding\<close>

text \<open>
  \<open>parsedResponses[responseId] = v\<close>. \<open>NaN\<close>, a negative number and a number from
  \<open>2^32 - 1\<close> on are property names, not positions: the elements stay as they are. A
  position at or beyond the length extends the array and leaves holes in between.
\<close>

definition array_set :: "'a cell list \<Rightarrow> int option \<Rightarrow> 'a cell \<Rightarrow> 'a cell list" where
  "array_set arr responseId v =
     (case responseId of
        None \<Rightarrow> arr
      | Some j \<Rightarrow>
          (if j < 0 \<or> 4294967295 \<le> j then arr
           else if nat j < length arr then arr[nat j := v]
           else arr @ replicate (nat j - length arr) Hole @ [v]))"

text \<open>
  The platform's \<open>new Response(body, init)\<close>, called with the fragment as \<open>init\<close>, of which
  it reads \<open>status\<close>, \<open>statusText\<close> and \<open>headers\<close>. The status is converted to an unsigned
  16-bit integer. The constructor raises a \<open>RangeError\<close> for a status outside 200 to 599,
  and a \<open>TypeError\<close> for a status text that is not a reason phrase, for a header whose
  name is not a token or whose value, without the white space around it, holds a NUL, a
  line feed or a carriage return, and for a body given with a status that allows none.
  \<open>JSON.stringify(response.body)\<close> is \<open>undefined\<close>, which is no body, when the fragment
  has no \<open>body\<close>, and a string otherwise; it does not raise on what came out of JSON.
\<close>

definition ushort :: "int \<Rightarrow> int" where
  "ushort n = n mod 65536"

definition isReasonPhraseChar :: "char \<Rightarrow> bool" where
  "isReasonPhraseChar c =
     ((of_char c :: nat) = 9 \<or> (32 \<le> (of_char c :: nat) \<and> (of_char c :: nat) \<noteq> 127))"

definition isTokenChar :: "char \<Rightarrow> bool" where
  "isTokenChar c =
     ((48 \<le> (of_char c :: nat) \<and> (of_char c :: nat) \<le> 57)
      \<or> (65 \<le> (of_char c :: nat) \<and> (of_char c :: nat) \<le> 90)
      \<or> (97 \<le> (of_char c :: nat) \<and> (of_char c :: nat) \<le> 122)
      \<or> (of_char c :: nat) \<in> {33, 35, 36, 37, 38, 39, 42, 43, 45, 46, 94, 95, 96, 124, 126})"

definition isHttpWhiteSpace :: "char \<Rightarrow> bool" where
  "isHttpWhiteSpace c = ((of_char c :: nat) \<in> {9, 10, 13, 32})"

definition isHeader :: "string \<times> string \<Rightarrow> bool" where
  "isHeader h =
     (case h of
        (name, v) \<Rightarrow>
          name \<noteq> [] \<and> list_all isTokenChar name
          \<and> list_all (\<lambda>c. (of_char c :: nat) \<notin> {0, 10, 13})
                (rev (dropWhile isHttpWhiteSpace (rev (dropWhile isHttpWhiteSpace v)))))"

definition isNullBodyStatus :: "int \<Rightarrow> bool" where
  "isNullBodyStatus status = (status \<in> {101, 103, 204, 205, 304})"

definition new_Response ::
  "'j IGraphBatchResponseFragment \<Rightarrow> platform_error + 'j Response" where
  "new_Response init =
     (let status = ushort (rstatus init)
      in if status < 200 \<or> 599 < status then Inl RangeError
         else if (case rstatusText init of
                    None \<Rightarrow> False
                  | Some t \<Rightarrow> \<not> list_all isReasonPhraseChar t) then Inl TypeError
         else if \<not> list_all isHeader (rheaders init) then Inl TypeError
         else if rbody init \<noteq> None \<and> isNullBodyStatus status then Inl TypeError
         else Inr (BodyResponse init))"

text \<open>
  The body of the \<open>for\<close> loop of \<open>parseResponse\<close>: the exception of the constructor, or
  the array after the assignment.
\<close>

definition place_response ::
  "'j cell list \<Rightarrow> 'j IGraphBatchResponseFragment \<Rightarrow> platform_error + 'j cell list" where
  "place_response parsedResponses response =
     (let responseId = map_option (\<lambda>n. n - 1) (parseInt10 (rid response))
      in if rstatus response = 204
         then Inr (array_set parsedResponses responseId (Resp EmptyResponse))
         else (case new_Response response of
                 Inl e \<Rightarrow> Inl e
               | Inr r \<Rightarrow> Inr (array_set parsedResponses responseId (Resp r))))"

text \<open>The \<open>for\<close> loop: the first exception ends it.\<close>

fun place_responses ::
  "'j cell list \<Rightarrow> 'j IGraphBatchResponseFragment list \<Rightarrow> platform_error + 'j cell list" where
  "place_responses parsedResponses [] = Inr parsedResponses"
| "place_responses parsedResponses (response # responses) =
     (case place_response parsedResponses response of
        Inl e \<Rightarrow> Inl e
      | Inr parsedResponses' \<Rightarrow> place_responses parsedResponses' responses)"

text \<open>
  \<open>parseResponse\<close>: an exception raised in the executor of the promise rejects the
  promise, as \<open>reject\<close> does.
\<close>

definition parseResponse ::
  "'j IGraphBatchResponse \<Rightarrow> 'x batch_error + 'j ParsedGraphResponse" where
  "parseResponse graphResponse =
     (case gr_error graphResponse of
        Some (code, message) \<Rightarrow> Inl (BatchProcessingError code message)
      | None \<Rightarrow>
          (case place_responses (replicate (length (gr_responses graphResponse)) Null)
                  (gr_responses graphResponse) of
             Inl e \<Rightarrow> Inl (Platform e)
           | Inr parsedResponses \<Rightarrow>
               Inr \<lparr>pr_nextLink = gr_nextLink graphResponse,
                    pr_responses = parsedResponses\<rparr>))"

text \<open>The callback that \<open>BatchParse\<close> hands to \<open>parseBinderWithErrorCheck\<close>.\<close>

definition BatchParse ::
  "'j IGraphBatchResponse \<Rightarrow> 'x batch_error + 'j ParsedGraphResponse" where
  "BatchParse graphResponse =
     (case gr_error graphResponse of
        Some (code, message) \<Rightarrow> Inl (BatchProcessingError code message)
      | None \<Rightarrow> parseResponse graphResponse)"

text \<open>
  Modelled from the spec: \<open>graphPost\<close> of \<open>operations.js\<close> and
  \<open>parseBinderWithErrorCheck\<close> of \<open>@pnp/queryable\<close>, which are not among the sources.
  The spec gives the transport as \<open>send(aggregateRequest) -> aggregateResponseRaw\<close>,
  which may raise a transport-level failure, and has the response decoded afterwards.
  So the awaited call raises what the transport raises, and otherwise gives what the
  \<open>BatchParse\<close> callback gives for the response, raising what that raises.
\<close>

definition graphPost ::
  "('q, 'j, 'x) env \<Rightarrow> nat \<Rightarrow> 'j IGraphBatchRequestFragment list
     \<Rightarrow> 'x batch_error + 'j ParsedGraphResponse" where
  "graphPost env k frags =
     (case transport env k frags of
        Inl x \<Rightarrow> Inl (Raised x)
      | Inr graphResponse \<Rightarrow> BatchParse graphResponse)"

subsection \<open>Registration\<close>

text \<open>
  What the closures made by \<open>createBatch\<close> share: the array \<open>registrationPromises\<close>, of
  which only whether each promise is settled matters (they are only ever resolved), and
  the array \<open>requests\<close>.
\<close>

record 'q batch =
  cb_registrationPromises :: "bool list"
  cb_requests :: "'q RequestRecord list"

definition createBatch :: "'q batch" where
  "createBatch = \<lparr>cb_registrationPromises = [], cb_requests = []\<rparr>"

text \<open>
  \<open>register(instance)\<close> pushes a pending promise and installs an observer at the \<open>send\<close>
  moment of the instance that holds the resolver of that promise. The observer belongs
  to the registration whose number is the position of its promise.
\<close>

definition register :: "'q batch \<Rightarrow> 'q batch" where
  "register b = b\<lparr>cb_registrationPromises := cb_registrationPromises b @ [False]\<rparr>"

text \<open>
  The observer of registration \<open>i\<close>, run for a send: it makes a promise, pushes the
  record with that promise's \<open>resolve\<close> and \<open>reject\<close> onto \<open>requests\<close>, calls the
  registration resolver (which does nothing to a promise already resolved) and returns
  the promise. The promise made by the interception that finds \<open>n\<close> records in the queue
  is promise \<open>n\<close>, so a promise's number is the position of its operation in the queue.
\<close>

definition send_intercept ::
  "nat \<Rightarrow> 'q \<times> string \<times> RequestInit \<Rightarrow> 'q batch \<Rightarrow> 'q batch" where
  "send_intercept i call b =
     (case call of
        (this, url, init) \<Rightarrow>
          \<lparr>cb_registrationPromises = (cb_registrationPromises b)[i := True],
           cb_requests =
             cb_requests b @ [\<lparr>rr_queryable = this, rr_url = url, rr_init = init,
                               rr_promise = length (cb_requests b)\<rparr>]\<rparr>)"

text \<open>
  What happens to a batch before it is flushed: an instance is registered, or the
  observer of a registration runs for a send. \<open>batch_after\<close> is the batch that a sequence
  of these leaves.
\<close>

datatype 'q action = Register | Send nat "'q \<times> string \<times> RequestInit"

fun act :: "'q batch \<Rightarrow> 'q action \<Rightarrow> 'q batch" where
  "act b Register = register b"
| "act b (Send i call) = send_intercept i call b"

definition batch_after :: "'q action list \<Rightarrow> 'q batch" where
  "batch_after acts = foldl act createBatch acts"

subsection \<open>Flushing\<close>

text \<open>
  What a flush does that can be observed from outside, in the order it happens:
  \<^item> \<open>Transmit k frags\<close>: the transport call for chunk \<open>k\<close> is made
    (\<open>graphPost(batchQuery, body(batchRequest))\<close>), with \<open>frags\<close> as the requests;
  \<^item> \<open>Resolve k p c\<close>: while the results of chunk \<open>k\<close> are delivered, the \<open>resolve\<close> of
    promise \<open>p\<close> is called with \<open>c\<close>;
  \<^item> \<open>Reject k p x\<close>: likewise the \<open>reject\<close> of promise \<open>p\<close>, with the exception \<open>x\<close>.
\<close>

datatype ('j, 'x) event =
  Transmit nat "'j IGraphBatchRequestFragment list"
| Resolve nat nat "'j cell"
| Reject nat nat 'x

text \<open>
  \<open>response.responses.reduce((p, response, index) => p.then(() => ...), Promise.resolve())\<close>
  builds a chain of \<open>then\<close> callbacks and is not awaited. A callback never runs inside
  \<open>then\<close>: it is queued as a job when the promise before it is settled, and jobs run
  first-in first-out, each to its end, whenever the running code has suspended or
  ended. The first callback of a chain is queued at once, each further one when the one
  before it has returned. A job is the chunk number, the chunk, and the elements that
  \<open>reduce\<close> visits from there on, with their positions; \<open>reduce\<close> skips holes.
\<close>

type_synonym ('q, 'j) job = "nat \<times> 'q RequestRecord list \<times> (nat \<times> 'j cell) list"

record ('q, 'j, 'x) state =
  trace :: "('j, 'x) event list"
  jobs :: "('q, 'j) job list"

definition entries :: "'j cell list \<Rightarrow> (nat \<times> 'j cell) list" where
  "entries arr = filter (\<lambda>(i, c). c \<noteq> Hole) (enumerate 0 arr)"

text \<open>
  One callback of the chain, for the element \<open>c\<close> at \<open>index\<close>: the events it makes, and
  whether it returned. Destructuring \<open>requestsChunk[index]\<close> raises a \<open>TypeError\<close> when
  the chunk has no such position; that, and an exception of \<open>reject\<close>, leave the
  callback, and then no later callback of the chain runs.
\<close>

definition deliver ::
  "('q, 'j, 'x) env \<Rightarrow> nat \<Rightarrow> 'q RequestRecord list \<Rightarrow> nat \<times> 'j cell
     \<Rightarrow> ('j, 'x) event list \<times> bool" where
  "deliver env k requestsChunk e =
     (case e of
        (index, c) \<Rightarrow>
          (if length requestsChunk \<le> index then ([], False)
           else (let p = rr_promise (requestsChunk ! index)
                 in case resolve_raises env p c of
                      None \<Rightarrow> ([Resolve k p c], True)
                    | Some x \<Rightarrow>
                        (case reject_raises env p x of
                           None \<Rightarrow> ([Resolve k p c, Reject k p x], True)
                         | Some _ \<Rightarrow> ([Resolve k p c, Reject k p x], False)))))"

text \<open>Running the job at the head of the queue.\<close>

definition tick :: "('q, 'j, 'x) env \<Rightarrow> ('q, 'j, 'x) state \<Rightarrow> ('q, 'j, 'x) state" where
  "tick env st =
     (case jobs st of
        [] \<Rightarrow> st
      | (k, requestsChunk, es) # js \<Rightarrow>
          (case es of
             [] \<Rightarrow> st\<lparr>jobs := js\<rparr>
           | e # es' \<Rightarrow>
               (case deliver env k requestsChunk e of
                  (evs, returned) \<Rightarrow>
                    \<lparr>trace = trace st @ evs,
                     jobs = js @ (if returned \<and> es' \<noteq> [] then [(k, requestsChunk, es')] else [])\<rparr>)))"

fun run_ticks :: "('q, 'j, 'x) env \<Rightarrow> nat \<Rightarrow> ('q, 'j, 'x) state \<Rightarrow> ('q, 'j, 'x) state" where
  "run_ticks env 0 st = st"
| "run_ticks env (Suc n) st = run_ticks env n (tick env st)"

text \<open>What is left to run in a queue: the callbacks still chained, and the jobs.\<close>

definition backlog :: "('q, 'j) job list \<Rightarrow> nat" where
  "backlog js = sum_list (map (\<lambda>(k, requestsChunk, es). Suc (length es)) js)"

text \<open>Once the flush has ended, the queued jobs run until none is left.\<close>

function drain :: "('q, 'j, 'x) env \<Rightarrow> ('q, 'j, 'x) state \<Rightarrow> ('q, 'j, 'x) state" where
  "drain env st = (if jobs st = [] then st else drain env (tick env st))"
  by pat_completeness auto
termination
proof (relation "measure (\<lambda>(env, st). backlog (jobs st))")
  show "wf (measure (\<lambda>(env :: ('q, 'j, 'x) env, st :: ('q, 'j, 'x) state). backlog (jobs st)))"
    by simp
next
  fix env :: "('q, 'j, 'x) env" and st :: "('q, 'j, 'x) state"
  assume ne: "jobs st \<noteq> []"
  then obtain k ch es js where j: "jobs st = (k, ch, es) # js"
    by (cases "jobs st") auto
  have "backlog (jobs (tick env st)) < backlog (jobs st)"
  proof (cases es)
    case Nil
    with j show ?thesis by (simp add: tick_def backlog_def)
  next
    case (Cons e es')
    obtain evs returned where d: "deliver env k ch e = (evs, returned)"
      by (cases "deliver env k ch e") auto
    from j Cons d show ?thesis by (simp add: tick_def backlog_def)
  qed
  then show "((env, tick env st), (env, st)) \<in> measure (\<lambda>(env, st). backlog (jobs st))"
    by simp
qed

declare drain.simps [simp del]

text \<open>The chain for the decoded responses of chunk \<open>k\<close> is built and its first job queued.\<close>

definition schedule ::
  "nat \<Rightarrow> 'q RequestRecord list \<Rightarrow> 'j cell list \<Rightarrow> ('q, 'j, 'x) state \<Rightarrow> ('q, 'j, 'x) state" where
  "schedule k requestsChunk responses st =
     (case entries responses of
        [] \<Rightarrow> st
      | e # es \<Rightarrow> st\<lparr>jobs := jobs st @ [(k, requestsChunk, e # es)]\<rparr>)"

datatype 'x flush_result = Returned | Failed "'x batch_error"

text \<open>
  One pass of the \<open>while\<close> loop of \<open>execute\<close>, for the chunk \<open>requestsChunk\<close> with number
  \<open>k\<close>: either the exception that ends the flush and the state it leaves, or the state
  with which the loop goes on. While the transport call is awaited, \<open>latency env k\<close>
  queued jobs run. Making the \<open>BatchQueryable\<close> and giving it its headers, between the
  encoding and the call, is synchronous and is taken not to raise.
\<close>

definition process_chunk ::
  "('q, 'j, 'x) env \<Rightarrow> nat \<Rightarrow> 'q RequestRecord list \<Rightarrow> ('q, 'j, 'x) state
     \<Rightarrow> ('x batch_error \<times> ('q, 'j, 'x) state) + ('q, 'j, 'x) state" where
  "process_chunk env k requestsChunk st =
     (case formatRequests env requestsChunk of
        Inl e \<Rightarrow> Inl (e, st)
      | Inr frags \<Rightarrow>
          (let st1 = run_ticks env (latency env k) (st\<lparr>trace := trace st @ [Transmit k frags]\<rparr>)
           in case graphPost env k frags of
                Inl e \<Rightarrow> Inl (e, st1)
              | Inr response \<Rightarrow> Inr (schedule k requestsChunk (pr_responses response) st1)))"

text \<open>
  The \<open>while\<close> loop. \<open>splice(0, maxRequests)\<close> takes the first \<open>maxRequests\<close> records
  off the working copy; with \<open>maxRequests\<close> zero (or negative, which \<open>splice\<close> treats as
  zero) it takes none and the loop does not end: \<open>None\<close> is a flush that never returns.
\<close>

partial_function (option) execute_loop ::
  "('q, 'j, 'x) env \<Rightarrow> nat \<Rightarrow> nat \<Rightarrow> ('q, 'j, 'x) state \<Rightarrow> 'q RequestRecord list
     \<Rightarrow> ('x flush_result \<times> ('q, 'j, 'x) state) option" where
  "execute_loop env maxRequests k st requestsWorkingCopy =
     (if length requestsWorkingCopy > 0
      then (case process_chunk env k (take maxRequests requestsWorkingCopy) st of
              Inl (e, st') \<Rightarrow> Some (Failed e, st')
            | Inr st' \<Rightarrow>
                execute_loop env maxRequests (Suc k) st' (drop maxRequests requestsWorkingCopy))
      else Some (Returned, st))"

text \<open>
  \<open>execute\<close>, on the batch as the registrations made before the call and the sends
  intercepted before its \<open>await\<close> ends leave it. It first awaits
  \<open>Promise.all(registrationPromises)\<close>: a registration promise that is pending then is
  never resolved, and the flush never gets past the \<open>await\<close>, which is \<open>None\<close>. The
  promises are never rejected, so \<open>Promise.all\<close> does not raise. Otherwise the result is
  how the flush ended and the state once the job queue has run empty: the callbacks still
  queued when \<open>execute\<close> ends run after it.
\<close>

definition execute ::
  "('q, 'j, 'x) env \<Rightarrow> nat \<Rightarrow> 'q batch
     \<Rightarrow> ('x flush_result \<times> ('q, 'j, 'x) state) option" where
  "execute env maxRequests b =
     (if \<not> list_all (\<lambda>settled. settled) (cb_registrationPromises b) then None
      else if length (cb_requests b) < 1 then Some (Returned, \<lparr>trace = [], jobs = []\<rparr>)
      else map_option (\<lambda>(r, st). (r, drain env st))
             (execute_loop env maxRequests 0 \<lparr>trace = [], jobs = []\<rparr> (cb_requests b)))"

section \<open>Notions for the properties of a flush\<close>

subsection \<open>What the properties are stated with\<close>

text \<open>Chunk \<open>k\<close> of a list cut into pieces of \<open>m\<close>: its next at most \<open>m\<close> elements after the first \<open>k * m\<close>.\<close>

definition chunk_at :: "nat \<Rightarrow> nat \<Rightarrow> 'a list \<Rightarrow> 'a list" where
  "chunk_at m k xs = take m (drop (k * m) xs)"

text \<open>
  How a flush ends (\<open>None\<close>: it does not), and the events it has made once the callbacks
  it queued have run (none when it does not end).
\<close>

definition flush_outcome ::
  "('q, 'j, 'x) env \<Rightarrow> nat \<Rightarrow> 'q batch \<Rightarrow> 'x flush_result option" where
  "flush_outcome env maxRequests b = map_option fst (execute env maxRequests b)"

definition flush_trace ::
  "('q, 'j, 'x) env \<Rightarrow> nat \<Rightarrow> 'q batch \<Rightarrow> ('j, 'x) event list" where
  "flush_trace env maxRequests b =
     (case execute env maxRequests b of None \<Rightarrow> [] | Some (r, st) \<Rightarrow> trace st)"

text \<open>
  A fragment on which the decoder does not raise: one with status 204, or one that the
  \<open>Response\<close> constructor accepts.
\<close>

definition accepted :: "'j IGraphBatchResponseFragment \<Rightarrow> bool" where
  "accepted r =
     (rstatus r = 204
      \<or> (case new_Response r of Inl e \<Rightarrow> False | Inr x \<Rightarrow> True))"



text \<open>Every registration promise of a batch is settled.\<close>

definition registrations_settled :: "'q batch \<Rightarrow> bool" where
  "registrations_settled b = list_all (\<lambda>settled. settled) (cb_registrationPromises b)"

text \<open>
  The actions of \<open>n\<close> instances that are registered and reach \<open>send\<close> one after the
  other, each with the given call.
\<close>

definition senders :: "('q \<times> string \<times> RequestInit) list \<Rightarrow> 'q action list" where
  "senders calls = concat (map (\<lambda>(i, call). [Register, Send i call]) (enumerate 0 calls))"

text \<open>
  Kinds of events: the transport call for chunk \<open>k\<close>; a call of a resolver or rejecter
  made while chunk \<open>k\<close> is delivered; a resolver call; a call of the resolver, or of the
  rejecter, of promise \<open>p\<close>. \<open>event_promise\<close> is the promise whose function is called.
\<close>

fun is_transmit_of :: "nat \<Rightarrow> ('j, 'x) event \<Rightarrow> bool" where
  "is_transmit_of k (Transmit j frags) = (j = k)"
| "is_transmit_of k (Resolve j p c) = False"
| "is_transmit_of k (Reject j p x) = False"

fun is_delivery_of :: "nat \<Rightarrow> ('j, 'x) event \<Rightarrow> bool" where
  "is_delivery_of k (Transmit j frags) = False"
| "is_delivery_of k (Resolve j p c) = (j = k)"
| "is_delivery_of k (Reject j p x) = (j = k)"

fun is_resolve :: "('j, 'x) event \<Rightarrow> bool" where
  "is_resolve (Transmit k frags) = False"
| "is_resolve (Resolve k p c) = True"
| "is_resolve (Reject k p x) = False"

fun resolves :: "nat \<Rightarrow> ('j, 'x) event \<Rightarrow> bool" where
  "resolves p (Transmit j frags) = False"
| "resolves p (Resolve j q c) = (q = p)"
| "resolves p (Reject j q x) = False"

fun rejects :: "nat \<Rightarrow> ('j, 'x) event \<Rightarrow> bool" where
  "rejects p (Transmit j frags) = False"
| "rejects p (Resolve j q c) = False"
| "rejects p (Reject j q x) = (q = p)"

fun event_promise :: "('j, 'x) event \<Rightarrow> nat" where
  "event_promise (Transmit k frags) = 0"
| "event_promise (Resolve k p c) = p"
| "event_promise (Reject k p x) = p"

text \<open>How often the resolver and the rejecter of promise \<open>p\<close> are called.\<close>

definition resolve_calls :: "nat \<Rightarrow> ('j, 'x) event list \<Rightarrow> nat" where
  "resolve_calls p tr = length (filter (resolves p) tr)"

definition reject_calls :: "nat \<Rightarrow> ('j, 'x) event list \<Rightarrow> nat" where
  "reject_calls p tr = length (filter (rejects p) tr)"

text \<open>The transport calls of a trace, in order: chunk number and requests.\<close>

fun transmissions :: "('j, 'x) event list \<Rightarrow> (nat \<times> 'j IGraphBatchRequestFragment list) list" where
  "transmissions [] = []"
| "transmissions (Transmit k frags # es) = (k, frags) # transmissions es"
| "transmissions (Resolve k p c # es) = transmissions es"
| "transmissions (Reject k p x # es) = transmissions es"

text \<open>Every \<open>a\<close>-event of a trace comes before every \<open>b\<close>-event of it.\<close>

definition precedes :: "('a \<Rightarrow> bool) \<Rightarrow> ('a \<Rightarrow> bool) \<Rightarrow> 'a list \<Rightarrow> bool" where
  "precedes a b tr = (\<forall>i j. i < length tr \<and> j < length tr \<and> a (tr ! i) \<and> b (tr ! j) \<longrightarrow> i < j)"

subsection \<open>What the proofs use\<close>

text \<open>
  The calls of the sends among some actions, the queue that intercepting these calls
  leaves, and a flush from the point where the \<open>await\<close> of the registration promises has
  passed, with a given queue.
\<close>

fun sends :: "'q action list \<Rightarrow> ('q \<times> string \<times> RequestInit) list" where
  "sends [] = []"
| "sends (Register # acts) = sends acts"
| "sends (Send i call # acts) = call # sends acts"

definition queued :: "('q \<times> string \<times> RequestInit) list \<Rightarrow> 'q RequestRecord list" where
  "queued calls =
     map (\<lambda>(n, call).
            (case call of
               (this, url, init) \<Rightarrow>
                 \<lparr>rr_queryable = this, rr_url = url, rr_init = init, rr_promise = n\<rparr>))
       (enumerate 0 calls)"

definition outcome_from ::
  "('q, 'j, 'x) env \<Rightarrow> nat \<Rightarrow> 'q RequestRecord list \<Rightarrow> 'x flush_result option" where
  "outcome_from env m reqs =
     flush_outcome env m \<lparr>cb_registrationPromises = [], cb_requests = reqs\<rparr>"

definition trace_from ::
  "('q, 'j, 'x) env \<Rightarrow> nat \<Rightarrow> 'q RequestRecord list \<Rightarrow> ('j, 'x) event list" where
  "trace_from env m reqs =
     flush_trace env m \<lparr>cb_registrationPromises = [], cb_requests = reqs\<rparr>"


text \<open>
  The loop of \<open>execute\<close> over the list of chunks it will take, for a positive chunk
  size: \<open>execute_loop env m k st reqs = Some (run_chunks env k st (chunks m reqs))\<close>.
\<close>

definition chunks :: "nat \<Rightarrow> 'a list \<Rightarrow> 'a list list" where
  "chunks m xs = map (\<lambda>k. chunk_at m k xs) [0..<(length xs + m - 1) div m]"

fun run_chunks ::
  "('q, 'j, 'x) env \<Rightarrow> nat \<Rightarrow> ('q, 'j, 'x) state \<Rightarrow> 'q RequestRecord list list
     \<Rightarrow> 'x flush_result \<times> ('q, 'j, 'x) state" where
  "run_chunks env k st [] = (Returned, st)"
| "run_chunks env k st (c # cs) =
     (case process_chunk env k c st of
        Inl (e, st') \<Rightarrow> (Failed e, st')
      | Inr st' \<Rightarrow> run_chunks env (Suc k) st' cs)"

definition start :: "('q, 'j, 'x) state" where
  "start = \<lparr>trace = [], jobs = []\<rparr>"

definition flush_end :: "('q, 'j, 'x) env \<Rightarrow> nat \<Rightarrow> 'q RequestRecord list \<Rightarrow> ('q, 'j, 'x) state" where
  "flush_end env m reqs = drain env (snd (run_chunks env 0 start (chunks m reqs)))"

text \<open>
  All the events that a chain of callbacks makes from the given elements on, and those
  that the queued jobs of chunk \<open>k\<close> will still make. \<open>chunk_calls\<close> joins the calls
  already made for chunk \<open>k\<close> with those still to come: running a job does not change it.
\<close>

fun chain_events ::
  "('q, 'j, 'x) env \<Rightarrow> nat \<Rightarrow> 'q RequestRecord list \<Rightarrow> (nat \<times> 'j cell) list \<Rightarrow> ('j, 'x) event list" where
  "chain_events env k ch [] = []"
| "chain_events env k ch (e # es) =
     (case deliver env k ch e of
        (evs, returned) \<Rightarrow> evs @ (if returned then chain_events env k ch es else []))"

definition pending :: "('q, 'j, 'x) env \<Rightarrow> nat \<Rightarrow> ('q, 'j) job list \<Rightarrow> ('j, 'x) event list" where
  "pending env k js = concat (map (\<lambda>(j, ch, es). if j = k then chain_events env j ch es else []) js)"

definition jobnos :: "('q, 'j, 'x) state \<Rightarrow> nat set" where
  "jobnos st = fst ` set (jobs st)"

definition chunk_calls :: "('q, 'j, 'x) env \<Rightarrow> nat \<Rightarrow> ('q, 'j, 'x) state \<Rightarrow> ('j, 'x) event list" where
  "chunk_calls env k st = filter (is_delivery_of k) (trace st) @ pending env k (jobs st)"

text \<open>What running queued jobs does to a state.\<close>

definition advances :: "('q, 'j, 'x) env \<Rightarrow> ('q, 'j, 'x) state \<Rightarrow> ('q, 'j, 'x) state \<Rightarrow> bool" where
  "advances env st st' =
     ((\<exists>ext. trace st' = trace st @ ext \<and> (\<forall>e\<in>set ext. \<exists>j\<in>jobnos st. is_delivery_of j e))
      \<and> jobnos st' \<subseteq> jobnos st
      \<and> distinct (map fst (jobs st'))
      \<and> (\<forall>k. chunk_calls env k st' = chunk_calls env k st))"

text \<open>
  The transport call for a chunk comes before every delivery of the chunk before it;
  and what holds when the loop is about to take chunk \<open>n\<close>.
\<close>

definition handed_over :: "('j, 'x) event list \<Rightarrow> bool" where
  "handed_over tr = (\<forall>k. precedes (is_transmit_of (Suc k)) (is_delivery_of k) tr)"

definition loop_inv :: "nat \<Rightarrow> ('q, 'j, 'x) state \<Rightarrow> bool" where
  "loop_inv n st =
     (distinct (map fst (jobs st)) \<and> (\<forall>j\<in>jobnos st. j < n)
      \<and> (\<forall>e\<in>set (trace st). \<forall>j. (is_delivery_of j e \<longrightarrow> Suc j < n) \<and> (is_transmit_of j e \<longrightarrow> j < n))
      \<and> handed_over (trace st))"

text \<open>
  The requests and the decoded array of a chunk (empty when there is none), whether the
  chunk is encoded and answered, and how many chunks are before the first that is not.
\<close>

definition frags_of ::
  "('q, 'j, 'x) env \<Rightarrow> 'q RequestRecord list \<Rightarrow> 'j IGraphBatchRequestFragment list" where
  "frags_of env ch = (case formatRequests env ch of Inl e \<Rightarrow> [] | Inr frags \<Rightarrow> frags)"

definition cells_of :: "('q, 'j, 'x) env \<Rightarrow> nat \<Rightarrow> 'q RequestRecord list \<Rightarrow> 'j cell list" where
  "cells_of env k ch =
     (case graphPost env k (frags_of env ch) of Inl e \<Rightarrow> [] | Inr r \<Rightarrow> pr_responses r)"

definition answered :: "('q, 'j, 'x) env \<Rightarrow> nat \<Rightarrow> 'q RequestRecord list \<Rightarrow> bool" where
  "answered env k ch =
     (case formatRequests env ch of
        Inl e \<Rightarrow> False
      | Inr frags \<Rightarrow> (case graphPost env k frags of Inl e \<Rightarrow> False | Inr r \<Rightarrow> True))"

fun completed :: "('q, 'j, 'x) env \<Rightarrow> nat \<Rightarrow> 'q RequestRecord list list \<Rightarrow> nat" where
  "completed env k [] = 0"
| "completed env k (c # cs) = (if answered env k c then Suc (completed env (Suc k) cs) else 0)"

text \<open>An array whose first \<open>n\<close> positions exist and are not holes.\<close>

definition solid :: "nat \<Rightarrow> 'a cell list \<Rightarrow> bool" where
  "solid n arr = (n \<le> length arr \<and> (\<forall>i<n. arr ! i \<noteq> Hole))"

section \<open>Example data\<close>

subsection \<open>Timelines\<close>

text \<open>
  A store whose object 0 is a parent registry with one observer for \<open>x\<close>, a Timeline
  constructed with that registry, and one constructed with it and two custom moments:
  \<open>y\<close>, whose dispatch function raises, and \<open>z\<close>, whose dispatch function returns.
\<close>

definition demo_store :: "nat store" where
  "demo_store = \<lparr>cells = (\<lambda>a. Map.empty)(0 := [''x'' \<mapsto> [1]]), fresh = 1\<rparr>"

definition demo_child :: "(nat, nat) Timeline" where
  "demo_child = fst (Timeline_new Map.empty (Some 0) demo_store)"

definition raising_moment :: "(nat, nat) moment" where
  "raising_moment obs args = Inl (Val 0)"

definition returning_moment :: "(nat, nat) moment" where
  "returning_moment obs args = Inr (Val 9)"

definition demo_custom :: "(nat, nat) Timeline" where
  "demo_custom =
     fst (Timeline_new [''y'' \<mapsto> raising_moment, ''z'' \<mapsto> returning_moment] (Some 0) demo_store)"

text \<open>A store whose object 0 has one observer for \<open>error\<close>, and two ways to run observers.\<close>

definition demo_store_err :: "nat store" where
  "demo_store_err = \<lparr>cells = (\<lambda>a. Map.empty)(0 := [''error'' \<mapsto> [7]]), fresh = 1\<rparr>"

definition quiet_call :: "nat \<Rightarrow> nat jsval list \<Rightarrow> nat outcome" where
  "quiet_call ob args = Inr Undefined"

definition failing_call :: "nat \<Rightarrow> nat jsval list \<Rightarrow> nat outcome" where
  "failing_call ob args = Inl (Val ob)"

text \<open>
  A platform whose opaque values are numbers, which print in decimal. Of the members of
  \<open>Object.prototype\<close> it has \<open>toString\<close>, which returns \<open>[object Object]\<close> for a Timeline,
  and \<open>__proto__\<close>, which is not a function: the \<open>TypeError\<close> of applying it is value 1.
\<close>

definition demo_platform ::
  "(nat \<Rightarrow> nat jsval list \<Rightarrow> nat outcome) \<Rightarrow> (nat, nat) platform" where
  "demo_platform run =
     \<lparr>run_observer = run,
      Object_prototype =
        [''toString'' \<mapsto> (\<lambda>obs args. Inr (Str ''[object Object]'')),
         ''__proto__'' \<mapsto> (\<lambda>obs args. Inl (Val 1))],
      toString = (\<lambda>n. Inr (numToString n))\<rparr>"

subsection \<open>The invitations getter\<close>

definition demo_create :: "unit \<Rightarrow> unit \<Rightarrow> nat jsval + nat" where
  "demo_create this factory = Inr 7"

subsection \<open>Batches\<close>

text \<open>
  A GET request without a body, issued on a queryable that is the unit value; fragments
  carry numbers as bodies and exceptions are numbers.
\<close>

definition demo_init :: RequestInit where
  "demo_init = \<lparr>init_method = Some ''GET'', init_headers = Map.empty, init_body = None\<rparr>"

definition demo_call :: "unit \<times> string \<times> RequestInit" where
  "demo_call = ((), ''https://graph.microsoft.com/v1.0/me'', demo_init)"

definition demo_isAbsolute :: "string \<Rightarrow> bool" where
  "demo_isAbsolute url = (prefix ''https://'' url \<or> prefix ''http://'' url)"

text \<open>The batch after \<open>n\<close> instances were registered and have each sent \<open>demo_call\<close>.\<close>

definition demo_batch :: "nat \<Rightarrow> unit batch" where
  "demo_batch n = batch_after (senders (replicate n demo_call))"

text \<open>The response fragment that echoes the id of a request fragment with status 200.\<close>

definition echo :: "'j IGraphBatchRequestFragment \<Rightarrow> 'j IGraphBatchResponseFragment" where
  "echo fr =
     \<lparr>rid = fid fr, rstatus = 200, rstatusText = None, rheaders = [], rbody = fbody fr\<rparr>"

text \<open>
  A batch with two registered instances of which only the first has reached \<open>send\<close>.
\<close>

definition demo_stalled :: "unit batch" where
  "demo_stalled = batch_after [Register, Register, Send 0 demo_call]"

text \<open>
  Five transports: one that answers every request, in reverse order; one whose every
  call raises; one whose every response carries a top-level error; one that answers
  only the first request of each chunk; one that answers every request with status 600.
\<close>

definition echo_transport ::
  "nat \<Rightarrow> nat IGraphBatchRequestFragment list \<Rightarrow> nat + nat IGraphBatchResponse" where
  "echo_transport k frags =
     Inr \<lparr>gr_error = None, gr_responses = map echo (rev frags), gr_nextLink = None\<rparr>"

definition down_transport ::
  "nat \<Rightarrow> nat IGraphBatchRequestFragment list \<Rightarrow> nat + nat IGraphBatchResponse" where
  "down_transport k frags = Inl 503"

definition error_transport ::
  "nat \<Rightarrow> nat IGraphBatchRequestFragment list \<Rightarrow> nat + nat IGraphBatchResponse" where
  "error_transport k frags =
     Inr \<lparr>gr_error = Some (''BadRequest'', ''Invalid batch payload format.''),
          gr_responses = [], gr_nextLink = None\<rparr>"

definition short_transport ::
  "nat \<Rightarrow> nat IGraphBatchRequestFragment list \<Rightarrow> nat + nat IGraphBatchResponse" where
  "short_transport k frags =
     Inr \<lparr>gr_error = None, gr_responses = map echo (take 1 frags), gr_nextLink = None\<rparr>"

definition status600_transport ::
  "nat \<Rightarrow> nat IGraphBatchRequestFragment list \<Rightarrow> nat + nat IGraphBatchResponse" where
  "status600_transport k frags =
     Inr \<lparr>gr_error = None, gr_responses = map (\<lambda>fr. (echo fr)\<lparr>rstatus := 600\<rparr>) frags,
          gr_nextLink = None\<rparr>"

text \<open>
  The collaborators around a transport: logging and \<open>JSON.parse\<close> do not raise, three
  queued jobs run during each awaited call, and \<open>resolve\<close> and \<open>reject\<close> do not raise.
\<close>

definition demo_env ::
  "(nat \<Rightarrow> nat IGraphBatchRequestFragment list \<Rightarrow> nat + nat IGraphBatchResponse)
     \<Rightarrow> (unit, nat, nat) env" where
  "demo_env tr =
     \<lparr>isUrlAbsolute = demo_isAbsolute, log_raises = (\<lambda>q. None), JSON_parse = (\<lambda>b. Some 0),
      transport = tr, latency = (\<lambda>k. 3), resolve_raises = (\<lambda>p c. None),
      reject_raises = (\<lambda>p x. None)\<rparr>"

text \<open>
  The collaborators of \<open>demo_env\<close> with a transport that answers every request, so fast
  that one queued job runs during each awaited call.
\<close>

definition fast_env :: "(unit, nat, nat) env" where
  "fast_env = (demo_env echo_transport)\<lparr>latency := (\<lambda>k. 1)\<rparr>"

text \<open>A transport that answers the first call and returns a top-level error from then on.\<close>

definition error_after_first ::
  "nat \<Rightarrow> nat IGraphBatchRequestFragment list \<Rightarrow> nat + nat IGraphBatchResponse" where
  "error_after_first k frags = (if k = 0 then echo_transport k frags else error_transport k frags)"

text \<open>The fragment that encodes \<open>demo_call\<close> at the first position of a chunk.\<close>

definition demo_fragment :: "nat IGraphBatchRequestFragment" where
  "demo_fragment =
     \<lparr>fid = ''1'', fmethod = Some ''GET'', furl = ''/me'', fheaders = Map.empty, fbody = None\<rparr>"

text \<open>The fragment for the second position, and a response that echoes both, second first.\<close>

definition demo_fragment2 :: "nat IGraphBatchRequestFragment" where
  "demo_fragment2 = demo_fragment\<lparr>fid := ''2''\<rparr>"




section \<open>Properties of the platform's functions\<close>

subsection \<open>printing and parsing numbers\<close>

lemma of_char_digit_char: "d < 10 \<Longrightarrow> (of_char (digit_char d) :: nat) = 48 + d"
  by (simp add: digit_char_def)

lemma digit_char_props:
  assumes "d < 10"
  shows "isDigit (digit_char d)" and "\<not> isWhiteSpace (digit_char d)"
    and "digit_char d \<noteq> CHR ''-''" and "digit_char d \<noteq> CHR ''+''"
    and "digit_value (digit_char d) = d"
proof -
  note o = of_char_digit_char [OF assms]
  show "isDigit (digit_char d)" using assms by (simp add: isDigit_def o)
  show "\<not> isWhiteSpace (digit_char d)" using assms by (auto simp add: isWhiteSpace_def o)
  show "digit_value (digit_char d) = d" by (simp add: digit_value_def o)
  show "digit_char d \<noteq> CHR ''-''"
  proof
    assume "digit_char d = CHR ''-''"
    then have "(of_char (digit_char d) :: nat) = of_char CHR ''-''" by simp
    with o show False by simp
  qed
  show "digit_char d \<noteq> CHR ''+''"
  proof
    assume "digit_char d = CHR ''+''"
    then have "(of_char (digit_char d) :: nat) = of_char CHR ''+''" by simp
    with o show False by simp
  qed
qed

lemma numToString_digits:
  "numToString n \<noteq> [] \<and> (\<forall>c\<in>set (numToString n). isDigit c)
   \<and> \<not> isWhiteSpace (hd (numToString n)) \<and> hd (numToString n) \<noteq> CHR ''-''
   \<and> hd (numToString n) \<noteq> CHR ''+''"
proof (induction n rule: numToString.induct)
  case (1 n)
  show ?case
  proof (cases "n < 10")
    case True
    then show ?thesis
      by (subst (1 2 3 4 5) numToString.simps) (simp add: digit_char_props)
  next
    case False
    have m: "n mod 10 < 10" by simp
    from False "1.IH" show ?thesis
      by (subst (1 2 3 4 5) numToString.simps) (auto simp: digit_char_props [OF m])
  qed
qed

lemma digits_value_snoc: "digits_value (ds @ [c]) = 10 * digits_value ds + digit_value c"
  by (simp add: digits_value_def)

lemma digits_value_numToString: "digits_value (numToString n) = n"
proof (induction n rule: numToString.induct)
  case (1 n)
  show ?case
  proof (cases "n < 10")
    case True
    then show ?thesis
      by (subst numToString.simps) (simp add: digits_value_def digit_char_props)
  next
    case False
    have m: "n mod 10 < 10" by simp
    from False "1.IH" show ?thesis
      by (subst numToString.simps) (simp add: digits_value_snoc digit_char_props [OF m])
  qed
qed

lemma parseInt10_digits:
  assumes "s \<noteq> []" "\<forall>c\<in>set s. isDigit c" "\<not> isWhiteSpace (hd s)" "hd s \<noteq> CHR ''-''"
    "hd s \<noteq> CHR ''+''"
  shows "parseInt10 s = Some (int (digits_value s))"
proof -
  have t: "takeWhile isDigit s = s"
    using assms(2) by (simp add: takeWhile_eq_all_conv)
  have d: "dropWhile isWhiteSpace s = s"
    using assms(1,3) by (cases s) auto
  show ?thesis
    unfolding parseInt10_def d Let_def using assms(1,4,5) by (simp add: t)
qed

lemma parseInt10_numToString: "parseInt10 (numToString n) = Some (int n)"
  using parseInt10_digits [of "numToString n"] numToString_digits [of n]
  by (simp add: digits_value_numToString)


lemma digit_char_table: "d < 10 \<Longrightarrow> digit_char d = ''0123456789'' ! d"
proof -
  assume d: "d < 10"
  have "(of_char (digit_char d) :: nat) = of_char (''0123456789'' ! d)"
    using d unfolding of_char_digit_char [OF d]
    by (auto simp add: less_Suc_eq numeral_Bit0 numeral_Bit1 nth_Cons' eval_nat_numeral)
  then show ?thesis by simp
qed

lemma numToString_one: "numToString (Suc 0) = ''1''"
  by (subst numToString.simps) (simp add: digit_char_table)

lemma numToString_two: "numToString (Suc (Suc 0)) = ''2''"
  by (subst numToString.simps) (simp add: digit_char_table)


lemma numToString_digit: "d < 10 \<Longrightarrow> numToString d = [''0123456789'' ! d]"
  by (subst numToString.simps) (simp add: digit_char_table)


section \<open>Properties of the Timeline\<close>

lemma emit_error:
  "emit pf s t ''error'' args =
     (if \<not> isArray (observers_for pf s t ''error'') \<or> elements (observers_for pf s t ''error'') = []
      then (case template (toString pf) (arg0 args) of
              Inl e \<Rightarrow> (Inl e, [(''error'', args)])
            | Inr str \<Rightarrow> (Inl (Error (''Unhandled Exception: '' @ str)), [(''error'', args)]))
      else (case moment_for pf t ''error'' (observers_for pf s t ''error'') args of
              Inr r \<Rightarrow> (Inr r, [(''error'', args)])
            | Inl e \<Rightarrow> (Inl e, [(''error'', args)])))"
  by (subst emit.simps) (simp add: Let_def split: sum.splits)

lemma emit_other:
  "p \<noteq> ''error'' \<Longrightarrow>
   emit pf s t p args =
     (case moment_for pf t p (observers_for pf s t p) args of
        Inr r \<Rightarrow> (Inr r, [(p, args)])
      | Inl e \<Rightarrow>
          (case fst (emit pf s t ''error'' [e]) of
             Inl e' \<Rightarrow> (Inl e', (p, args) # snd (emit pf s t ''error'' [e]))
           | Inr r \<Rightarrow> (Inr Undefined, (p, args) # snd (emit pf s t ''error'' [e]))))"
  by (subst emit.simps) (auto simp add: Let_def split: sum.splits prod.splits)

lemma emit_error_calls: "snd (emit pf s t ''error'' args) = [(''error'', args)]"
  by (simp add: emit_error split: sum.splits)

text \<open>
  For a name that \<open>Object.prototype\<close> does not have, the observers are an array, which is
  why the default dispatch never meets anything else.
\<close>

lemma observers_for_own_name:
  "Object_prototype pf p = None \<Longrightarrow> isArray (observers_for pf s t p)"
  by (simp add: observers_for_def split: option.splits)

text \<open>
  What \<open>on[p](handler)\<close> does on a Timeline that still inherits its registry: the
  registry is cloned into a new object, the parent is remembered and left as it was,
  and the observer goes into the clone.
\<close>

lemma on_add_copies_on_first_write:
  assumes "inheritingObservers t" "observers t < fresh s" "on_add t p (Fn ob) s = (t', s', err)"
  shows "observers t' = fresh s \<and> observers t' \<noteq> observers t
         \<and> parentObservers t' = Some (observers t) \<and> \<not> inheritingObservers t'
         \<and> cells s' (observers t) = cells s (observers t)
         \<and> cells s' (observers t') p
             = Some (case cells s (observers t) p of None \<Rightarrow> [ob] | Some os \<Rightarrow> os @ [ob])
         \<and> err = None"
  using assms
  by (auto simp: on_add_def cloneDeep_def alloc_def addObserver_def Let_def
      split: option.splits)

text \<open>
  C1. The claim: on a Timeline constructed with an externally supplied registry, the
  first mutating call, whichever it is (subscribe in any mode, or clear), stores the
  parent registry, replaces the working registry with a deep copy and mutates the copy.
  The source does this for \<open>on[p](handler)\<close> only (see \<open>on_add_copies_on_first_write\<close>).
  Evaluated on a Timeline that inherits registry 0, where \<open>x\<close> has the observer 1:
  \<open>on.x.replace\<close>, \<open>on.x.prepend\<close> and \<open>clear.x\<close> leave the Timeline inheriting, with
  no parent stored and with registry 0 as its working registry, allocate nothing, and
  write into registry 0, the parent's object.
\<close>

theorem first_write_by_replace_prepend_clear_mutates_parent:
  "cells demo_store 0 ''x'' = Some [1]
   \<and> observers demo_child = 0 \<and> inheritingObservers demo_child
   \<and> (case on_replace demo_child ''x'' (Fn 2) demo_store of
         (t', s', err) \<Rightarrow>
           t' = demo_child \<and> parentObservers t' = None \<and> fresh s' = fresh demo_store
           \<and> cells s' 0 ''x'' = Some [2] \<and> err = None)
   \<and> (case on_prepend demo_child ''x'' (Fn 2) demo_store of
         (t', s', err) \<Rightarrow>
           t' = demo_child \<and> parentObservers t' = None \<and> fresh s' = fresh demo_store
           \<and> cells s' 0 ''x'' = Some [2, 1] \<and> err = None)
   \<and> (case clear demo_child ''x'' demo_store of
         (cleared, s') \<Rightarrow>
           cleared \<and> fresh s' = fresh demo_store \<and> cells s' 0 ''x'' = Some [])"
  by (simp add: demo_store_def demo_child_def Timeline_new_def on_replace_def on_prepend_def
      clear_def addObserver_def)

text \<open>
  C6, as stated: invoking \<open>error\<close> with no error observer raises an unhandled-error
  exception that carries the original argument. What the exception carries is the string
  that the argument converts to: on a Timeline with no error observer, the \<open>Error\<close> object
  with the message \<open>boom\<close> and the string \<open>Error: boom\<close> are different arguments and raise
  the same exception.
\<close>

theorem emit_error_keeps_string_only_counterexample:
  "Error ''boom'' \<noteq> (Str ''Error: boom'' :: nat jsval)
   \<and> observers_for (demo_platform quiet_call) demo_store demo_custom ''error'' = Array []
   \<and> fst (emit (demo_platform quiet_call) demo_store demo_custom ''error'' [Error ''boom''])
       = Inl (Error ''Unhandled Exception: Error: boom'')
   \<and> fst (emit (demo_platform quiet_call) demo_store demo_custom ''error'' [Str ''Error: boom''])
       = Inl (Error ''Unhandled Exception: Error: boom'')"
  by (simp add: emit_error observers_for_def demo_platform_def demo_store_def demo_custom_def
      Timeline_new_def template_def)

text \<open>
  C6, amended: for every Timeline and every argument list, invoking \<open>error\<close> when no
  error observer is registered raises instead of returning. It raises an \<open>Error\<close> whose
  message is \<open>Unhandled Exception: \<close> followed by the string conversion of the first
  argument, which is what it keeps of the argument; when that conversion itself raises,
  its exception is raised. This is the only rule of \<open>emit\<close> about missing observers: an
  invocation of any other point fails only when its dispatch function raises and the
  \<open>error\<close> invocation that this is re-routed to fails; and for a point with no observers
  and the default dispatch (a name that neither the moments nor \<open>Object.prototype\<close> have)
  the invocation is a no-op that returns \<open>undefined\<close>.
\<close>

theorem emit_unhandled_error:
  "(\<not> isArray (observers_for pf s t ''error'') \<or> elements (observers_for pf s t ''error'') = []
      \<longrightarrow> emit pf s t ''error'' args
            = (case template (toString pf) (arg0 args) of
                 Inr str \<Rightarrow>
                   (Inl (Error (''Unhandled Exception: '' @ str)), [(''error'', args)])
               | Inl e \<Rightarrow> (Inl e, [(''error'', args)])))
   \<and> (p \<noteq> ''error'' \<and> fst (emit pf s t p args) = Inl x
       \<longrightarrow> (\<exists>e. moment_for pf t p (observers_for pf s t p) args = Inl e
                \<and> fst (emit pf s t ''error'' [e]) = Inl x))
   \<and> (p' \<noteq> ''error'' \<and> observers_for pf s t p' = Array [] \<and> moments t p' = None
       \<and> Object_prototype pf p' = None
       \<longrightarrow> emit pf s t p' args = (Inr Undefined, [(p', args)]))"
proof (intro conjI impI)
  assume "\<not> isArray (observers_for pf s t ''error'') \<or> elements (observers_for pf s t ''error'') = []"
  then show "emit pf s t ''error'' args
            = (case template (toString pf) (arg0 args) of
                 Inr str \<Rightarrow>
                   (Inl (Error (''Unhandled Exception: '' @ str)), [(''error'', args)])
               | Inl e \<Rightarrow> (Inl e, [(''error'', args)]))"
    by (auto simp: emit_error split: sum.splits)
next
  assume "p \<noteq> ''error'' \<and> fst (emit pf s t p args) = Inl x"
  then show "\<exists>e. moment_for pf t p (observers_for pf s t p) args = Inl e
                \<and> fst (emit pf s t ''error'' [e]) = Inl x"
    by (auto simp: emit_other split: sum.splits)
next
  assume "p' \<noteq> ''error'' \<and> observers_for pf s t p' = Array [] \<and> moments t p' = None
       \<and> Object_prototype pf p' = None"
  then show "emit pf s t p' args = (Inr Undefined, [(p', args)])"
    by (simp add: emit_other moment_for_def)
qed

theorem emit_unhandled_error_witness:
  "observers_for (demo_platform quiet_call) demo_store demo_custom ''error'' = Array []
   \<and> template (toString (demo_platform quiet_call)) (arg0 [Val 5]) = Inr ''5''
   \<and> emit (demo_platform quiet_call) demo_store demo_custom ''error'' [Val 5]
       = (Inl (Error ''Unhandled Exception: 5''), [(''error'', [Val 5])])
   \<and> ''y'' \<noteq> ''error''
   \<and> fst (emit (demo_platform quiet_call) demo_store demo_custom ''y'' [Val 5])
       = Inl (Error ''Unhandled Exception: 0'')
   \<and> moment_for (demo_platform quiet_call) demo_custom ''y''
       (observers_for (demo_platform quiet_call) demo_store demo_custom ''y'') [Val 5]
       = Inl (Val 0)
   \<and> fst (emit (demo_platform quiet_call) demo_store demo_custom ''error'' [Val 0])
       = Inl (Error ''Unhandled Exception: 0'')
   \<and> ''log'' \<noteq> ''error''
   \<and> observers_for (demo_platform quiet_call) demo_store demo_custom ''log'' = Array []
   \<and> moments demo_custom ''log'' = None
   \<and> Object_prototype (demo_platform quiet_call) ''log'' = None
   \<and> emit (demo_platform quiet_call) demo_store demo_custom ''log'' [Val 5]
       = (Inr Undefined, [(''log'', [Val 5])])"
proof -
  let ?pf = "demo_platform quiet_call"
  have five: "numToString 5 = ''5''" and zero: "numToString 0 = ''0''"
    by (simp_all add: numToString_digit)
  have obs: "observers_for ?pf demo_store demo_custom ''error'' = Array []"
    "observers_for ?pf demo_store demo_custom ''log'' = Array []"
    "observers_for ?pf demo_store demo_custom ''y'' = Array []"
    by (simp_all add: observers_for_def demo_platform_def demo_store_def demo_custom_def
        Timeline_new_def)
  have conv: "template (toString ?pf) (Val n) = Inr (numToString n)" for n
    by (simp add: template_def demo_platform_def)
  have mo: "moment_for ?pf demo_custom ''y'' (Array []) [Val 5] = Inl (Val 0)"
    by (simp add: moment_for_def demo_custom_def Timeline_new_def raising_moment_def)
  have er: "emit ?pf demo_store demo_custom ''error'' [Val 0]
              = (Inl (Error ''Unhandled Exception: 0''), [(''error'', [Val 0])])"
    by (simp add: emit_error obs(1) conv zero)
  have y: "fst (emit ?pf demo_store demo_custom ''y'' [Val 5]) = Inl (Error ''Unhandled Exception: 0'')"
    by (simp add: emit_other obs(3) mo er)
  note w = emit_unhandled_error [of ?pf demo_store demo_custom "[Val 5]" "''y''"
      "Error ''Unhandled Exception: 0''" "''log''"]
  from w obs(1) have e: "emit ?pf demo_store demo_custom ''error'' [Val 5]
       = (Inl (Error ''Unhandled Exception: 5''), [(''error'', [Val 5])])"
    by (simp add: conv five)
  from w y obtain e0 where e0:
    "moment_for ?pf demo_custom ''y'' (observers_for ?pf demo_store demo_custom ''y'') [Val 5] = Inl e0"
    "fst (emit ?pf demo_store demo_custom ''error'' [e0]) = Inl (Error ''Unhandled Exception: 0'')"
    by auto
  from e0(1) have "e0 = Val 0" by (simp add: obs(3) mo)
  with e0 have m: "moment_for ?pf demo_custom ''y''
       (observers_for ?pf demo_store demo_custom ''y'') [Val 5] = Inl (Val 0)"
    "fst (emit ?pf demo_store demo_custom ''error'' [Val 0]) = Inl (Error ''Unhandled Exception: 0'')"
    by simp_all
  have l: "moments demo_custom ''log'' = None" "Object_prototype ?pf ''log'' = None"
    by (simp_all add: demo_custom_def Timeline_new_def demo_platform_def)
  with w obs(2) have lg: "emit ?pf demo_store demo_custom ''log'' [Val 5]
       = (Inr Undefined, [(''log'', [Val 5])])" by simp
  have t: "template (toString ?pf) (arg0 [Val 5]) = Inr ''5''"
    by (simp add: conv five)
  from obs e y m l lg t show ?thesis by simp
qed

text \<open>
  Names that \<open>Object.prototype\<close> has are dispatched to its members: on a Timeline with no
  observers and no moments of these names, invoking \<open>toString\<close> returns what the member
  returns, and invoking \<open>__proto__\<close>, which is not a function, is re-routed to \<open>error\<close>.
\<close>

lemma emit_inherited_names:
  "emit (demo_platform quiet_call) demo_store demo_child ''toString'' [Val 5]
     = (Inr (Str ''[object Object]''), [(''toString'', [Val 5])])
   \<and> snd (emit (demo_platform quiet_call) demo_store demo_child ''__proto__'' [Val 5])
       = [(''__proto__'', [Val 5]), (''error'', [Val 1])]
   \<and> emit (demo_platform quiet_call) demo_store_err demo_child ''__proto__'' [Val 5]
       = (Inr Undefined, [(''__proto__'', [Val 5]), (''error'', [Val 1])])"
  by (simp add: emit_other emit_error observers_for_def moment_for_def template_def
      demo_platform_def demo_store_def demo_store_err_def demo_child_def Timeline_new_def
      quiet_call_def)

text \<open>
  C7. If the dispatch function of a point other than \<open>error\<close> raises \<open>e\<close>, the
  invocation makes exactly one further invocation, of \<open>error\<close> with \<open>e\<close>, on the same
  Timeline, and ends as that one does (raising what it raises, returning \<open>undefined\<close> when
  it returns). If the dispatch function of \<open>error\<close> itself raises, the invocation raises
  the same exception and makes no further invocation.
\<close>

theorem emit_reroutes_once:
  "(p \<noteq> ''error'' \<and> moment_for pf t p (observers_for pf s t p) args = Inl e \<longrightarrow>
      snd (emit pf s t p args) = [(p, args), (''error'', [e])]
      \<and> fst (emit pf s t p args)
          = (case fst (emit pf s t ''error'' [e]) of
               Inl e' \<Rightarrow> Inl e'
             | Inr r \<Rightarrow> Inr Undefined))
   \<and> (isArray (observers_for pf s t ''error'') \<and> elements (observers_for pf s t ''error'') \<noteq> []
      \<and> moment_for pf t ''error'' (observers_for pf s t ''error'') args' = Inl e' \<longrightarrow>
        emit pf s t ''error'' args' = (Inl e', [(''error'', args')]))"
  by (auto simp: emit_other emit_error_calls emit_error split: sum.splits)

theorem emit_reroutes_once_witness:
  "''y'' \<noteq> ''error''
   \<and> moment_for (demo_platform failing_call) demo_custom ''y''
        (observers_for (demo_platform failing_call) demo_store_err demo_custom ''y'')
        [Val 5] = Inl (Val 0)
   \<and> snd (emit (demo_platform failing_call) demo_store_err demo_custom ''y'' [Val 5])
       = [(''y'', [Val 5]), (''error'', [Val 0])]
   \<and> fst (emit (demo_platform failing_call) demo_store_err demo_custom ''y'' [Val 5]) = Inl (Val 7)
   \<and> observers_for (demo_platform failing_call) demo_store_err demo_custom ''error'' = Array [7]
   \<and> moment_for (demo_platform failing_call) demo_custom ''error''
        (observers_for (demo_platform failing_call) demo_store_err demo_custom ''error'') [Val 0]
        = Inl (Val 7)
   \<and> emit (demo_platform failing_call) demo_store_err demo_custom ''error'' [Val 0]
       = (Inl (Val 7), [(''error'', [Val 0])])"
  using emit_reroutes_once [of "''y''" "demo_platform failing_call" demo_custom demo_store_err
      "[Val 5]" "Val 0" "[Val 0]" "Val 7"]
  by (simp add: observers_for_def moment_for_def demo_store_err_def demo_custom_def
      Timeline_new_def raising_moment_def failing_call_def demo_platform_def)

section \<open>Properties of the invitations getter\<close>

text \<open>
  C10. Reading \<open>invitations\<close> on a \<open>GraphRest\<close> never gives the object that
  \<open>this.create(Invitations)\<close> builds: whenever \<open>create\<close> returns, the read evaluates to
  \<open>undefined\<close>, and whatever the read evaluates to is \<open>undefined\<close>.
\<close>

theorem invitations_getter_undefined:
  "(\<forall>obj. create this Invitations = Inr obj \<longrightarrow>
      invitations_get create Invitations this = Inr Undefined)
   \<and> (\<forall>v. invitations_get create Invitations this = Inr v \<longrightarrow> v = Undefined)"
  by (auto simp: invitations_get_def split: sum.splits)

theorem invitations_getter_undefined_witness:
  "demo_create () () = Inr 7 \<and> invitations_get demo_create () () = Inr Undefined"
  using invitations_getter_undefined [of demo_create "()" "()"]
  by (simp add: demo_create_def)


section \<open>Properties of a batch\<close>

subsection \<open>chunks\<close>

lemma chunk_at_Suc: "chunk_at m (Suc k) xs = chunk_at m k (drop m xs)"
  by (simp add: chunk_at_def add.commute)

lemma chunk_at_0: "chunk_at m 0 xs = take m xs"
  by (simp add: chunk_at_def)

lemma chunks_Nil: "chunks m [] = []"
  by (cases m) (simp_all add: chunks_def)

lemma ceil_step:
  assumes "0 < m" "0 < (n::nat)"
  shows "(n + m - 1) div m = Suc ((n - m + m - 1) div m)"
proof (cases "n \<le> m")
  case True
  with assms have "(n + m - 1) div m = 1"
    by (intro div_nat_eqI) auto
  moreover from True assms have "(n - m + m - 1) div m = 0" by simp
  ultimately show ?thesis by simp
next
  case False
  then obtain d where d: "n = d + m" "0 < d"
    by (metis add.commute less_imp_add_positive not_le)
  have "d + m + m - 1 = (d + m - 1) + m"
    using d by simp
  then have "(d + m + m - 1) div m = ((d + m - 1) + m) div m"
    by (simp only:)
  also have "\<dots> = (d + m - 1) div m + 1"
    by (rule div_add_self2) (use assms in simp)
  finally show ?thesis by (simp add: d)
qed

lemma chunks_step:
  assumes "0 < m" "xs \<noteq> []"
  shows "chunks m xs = take m xs # chunks m (drop m xs)"
proof -
  have n: "(length xs + m - 1) div m = Suc ((length xs - m + m - 1) div m)"
    using assms by (intro ceil_step) auto
  have "[0..<Suc ((length xs - m + m - 1) div m)] = 0 # map Suc [0..<(length xs - m + m - 1) div m]"
    by (simp only: map_Suc_upt upt_conv_Cons [of 0] zero_less_Suc)
  then show ?thesis
    unfolding chunks_def n
    by (simp add: chunk_at_0 chunk_at_Suc del: upt_Suc)
qed

lemma execute_loop_run_chunks:
  "0 < m \<Longrightarrow> execute_loop env m k st reqs = Some (run_chunks env k st (chunks m reqs))"
proof (induction "length reqs" arbitrary: reqs k st rule: less_induct)
  case less
  show ?case
  proof (cases "reqs = []")
    case True
    then show ?thesis by (subst execute_loop.simps) (simp add: chunks_Nil)
  next
    case False
    with less.prems have len: "length (drop m reqs) < length reqs" by simp
    note ih = less.hyps [OF len less.prems]
    show ?thesis
      using False less.prems
      by (subst execute_loop.simps) (simp add: chunks_step ih split: sum.splits prod.splits)
  qed
qed

subsection \<open>jobs\<close>

lemma deliver_events:
  "deliver env k ch e = (evs, r) \<Longrightarrow> ev \<in> set evs \<Longrightarrow> is_delivery_of k ev"
  by (cases e) (auto simp: deliver_def Let_def split: if_splits option.splits)

lemma filter_deliver_same:
  "deliver env k ch e = (evs, r) \<Longrightarrow> filter (is_delivery_of k) evs = evs"
  by (rule filter_True) (auto dest: deliver_events)

lemma filter_deliver_other:
  "deliver env k ch e = (evs, r) \<Longrightarrow> j \<noteq> k \<Longrightarrow> filter (is_delivery_of j) evs = []"
proof -
  assume d: "deliver env k ch e = (evs, r)" and ne: "j \<noteq> k"
  have "\<not> is_delivery_of j ev" if "ev \<in> set evs" for ev
    using deliver_events [OF d that] ne by (cases ev) auto
  then show ?thesis by (simp add: filter_empty_conv)
qed

lemma pending_Nil [simp]: "pending env k [] = []"
  by (simp add: pending_def)

lemma pending_Cons:
  "pending env k ((j, ch, es) # js) = (if j = k then chain_events env j ch es else []) @ pending env k js"
  by (simp add: pending_def)

lemma pending_append: "pending env k (js @ js') = pending env k js @ pending env k js'"
  by (simp add: pending_def)

lemma pending_absent: "k \<notin> fst ` set js \<Longrightarrow> pending env k js = []"
  by (induction js) (auto simp: pending_Cons)

lemma advances_refl: "distinct (map fst (jobs st)) \<Longrightarrow> advances env st st"
  by (simp add: advances_def)

lemma advances_trans:
  assumes "advances env st st'" "advances env st' st''"
  shows "advances env st st''"
proof -
  from assms(1) obtain ext where e1: "trace st' = trace st @ ext"
    "\<forall>e\<in>set ext. \<exists>j\<in>jobnos st. is_delivery_of j e" and s1: "jobnos st' \<subseteq> jobnos st"
    and t1: "\<forall>k. chunk_calls env k st' = chunk_calls env k st"
    by (auto simp: advances_def)
  from assms(2) obtain ext' where e2: "trace st'' = trace st' @ ext'"
    "\<forall>e\<in>set ext'. \<exists>j\<in>jobnos st'. is_delivery_of j e" and s2: "jobnos st'' \<subseteq> jobnos st'"
    and d2: "distinct (map fst (jobs st''))"
    and t2: "\<forall>k. chunk_calls env k st'' = chunk_calls env k st'"
    by (auto simp: advances_def)
  have "trace st'' = trace st @ (ext @ ext')" using e1 e2 by simp
  moreover have "\<forall>e\<in>set (ext @ ext'). \<exists>j\<in>jobnos st. is_delivery_of j e"
    using e1(2) e2(2) s1 by (auto simp: subset_iff) blast
  ultimately have "\<exists>x. trace st'' = trace st @ x \<and> (\<forall>e\<in>set x. \<exists>j\<in>jobnos st. is_delivery_of j e)"
    by (intro exI conjI)
  moreover have "jobnos st'' \<subseteq> jobnos st" using s1 s2 by simp
  moreover have "\<forall>k. chunk_calls env k st'' = chunk_calls env k st" using t1 t2 by simp
  ultimately show ?thesis
    unfolding advances_def using d2 by simp
qed

lemma tick_advances:
  assumes dist: "distinct (map fst (jobs st))"
  shows "advances env st (tick env st)"
proof (cases "jobs st")
  case Nil
  then have "tick env st = st" by (simp add: tick_def)
  with dist show ?thesis by (simp add: advances_refl)
next
  case (Cons j js)
  obtain k ch es where j: "j = (k, ch, es)" by (cases j) auto
  from dist Cons j have knot: "k \<notin> fst ` set js" and djs: "distinct (map fst js)" by auto
  show ?thesis
  proof (cases es)
    case Nil
    with Cons j have t: "tick env st = st\<lparr>jobs := js\<rparr>" by (simp add: tick_def)
    show ?thesis
      unfolding advances_def t using Cons j Nil djs
      by (auto simp: jobnos_def chunk_calls_def pending_Cons)
  next
    case (Cons e es')
    obtain evs r where d: "deliver env k ch e = (evs, r)" by (cases "deliver env k ch e") auto
    let ?new = "if r \<and> es' \<noteq> [] then [(k, ch, es')] else []"
    from \<open>jobs st = j # js\<close> j Cons d
    have t: "tick env st = \<lparr>trace = trace st @ evs, jobs = js @ ?new\<rparr>"
      by (simp add: tick_def)
    have ext: "\<forall>ev\<in>set evs. \<exists>j\<in>jobnos st. is_delivery_of j ev"
      using deliver_events [OF d] \<open>jobs st = j # js\<close> j by (auto simp: jobnos_def)
    have sub: "jobnos (tick env st) \<subseteq> jobnos st"
      using \<open>jobs st = j # js\<close> j by (auto simp: t jobnos_def)
    have dis: "distinct (map fst (jobs (tick env st)))"
      using knot djs by (auto simp: t)
    have tot: "chunk_calls env i (tick env st) = chunk_calls env i st" for i
    proof (cases "i = k")
      case True
      have "pending env k (js @ ?new) = (if r then chain_events env k ch es' else [])"
        using knot by (auto simp: pending_append pending_absent pending_Cons)
      then show ?thesis
        using True \<open>jobs st = j # js\<close> j Cons d knot
        by (simp add: chunk_calls_def t filter_deliver_same pending_Cons pending_absent)
    next
      case False
      have "pending env i (js @ ?new) = pending env i js"
        using False by (auto simp: pending_append pending_Cons)
      then show ?thesis
        using False \<open>jobs st = j # js\<close> j Cons d
        by (simp add: chunk_calls_def t filter_deliver_other [OF d] pending_Cons)
    qed
    show ?thesis
      unfolding advances_def using t ext sub dis tot by auto
  qed
qed

lemma advances_distinct: "advances env st st' \<Longrightarrow> distinct (map fst (jobs st'))"
  by (simp add: advances_def)

lemma run_ticks_advances:
  "distinct (map fst (jobs st)) \<Longrightarrow> advances env st (run_ticks env n st)"
proof (induction n arbitrary: st)
  case 0
  then show ?case by (simp add: advances_refl)
next
  case (Suc n)
  have a: "advances env st (tick env st)" by (rule tick_advances [OF Suc.prems])
  have "advances env (tick env st) (run_ticks env n (tick env st))"
    by (rule Suc.IH [OF advances_distinct [OF a]])
  with a show ?case by (auto intro: advances_trans)
qed

lemma drain_advances:
  "distinct (map fst (jobs st)) \<Longrightarrow> advances env st (drain env st)"
proof (induction env st rule: drain.induct)
  case (1 env st)
  show ?case
  proof (cases "jobs st = []")
    case True
    then show ?thesis using 1 by (subst drain.simps) (simp add: advances_refl)
  next
    case False
    have a: "advances env st (tick env st)" by (rule tick_advances [OF "1.prems"])
    have "advances env (tick env st) (drain env (tick env st))"
      by (rule "1.IH" [OF False advances_distinct [OF a]])
    with a have "advances env st (drain env (tick env st))" by (rule advances_trans)
    then show ?thesis using False by (subst drain.simps) simp
  qed
qed

lemma drain_jobs: "jobs (drain env st) = []"
proof (induction env st rule: drain.induct)
  case (1 env st)
  then show ?case by (subst drain.simps) simp
qed

subsection \<open>order of events\<close>

lemma precedes_no_b: "\<forall>e\<in>set tr. \<not> b e \<Longrightarrow> precedes a b tr"
  by (auto simp: precedes_def)

lemma precedes_append_no_a:
  assumes "precedes a b tr" "\<forall>e\<in>set ext. \<not> a e"
  shows "precedes a b (tr @ ext)"
  unfolding precedes_def
proof (intro allI impI)
  fix i j
  assume h: "i < length (tr @ ext) \<and> j < length (tr @ ext) \<and> a ((tr @ ext) ! i) \<and> b ((tr @ ext) ! j)"
  have i: "i < length tr"
  proof (rule ccontr)
    assume "\<not> i < length tr"
    with h have "(tr @ ext) ! i \<in> set ext" by (auto simp: nth_append)
    with assms(2) h show False by auto
  qed
  show "i < j"
  proof (cases "j < length tr")
    case True
    with i h assms(1) show ?thesis by (auto simp: precedes_def nth_append)
  next
    case False
    with i show ?thesis by simp
  qed
qed

lemma delivery_not_transmit: "is_delivery_of j e \<Longrightarrow> \<not> is_transmit_of k e"
  by (cases e) auto

lemma ord_append_deliveries:
  assumes "handed_over tr" "\<forall>e\<in>set ext. \<exists>j. is_delivery_of j e"
  shows "handed_over (tr @ ext)"
  unfolding handed_over_def
proof
  fix k
  have "\<forall>e\<in>set ext. \<not> is_transmit_of (Suc k) e"
    using assms(2) delivery_not_transmit by blast
  with assms(1) show "precedes (is_transmit_of (Suc k)) (is_delivery_of k) (tr @ ext)"
    by (auto simp: handed_over_def intro: precedes_append_no_a)
qed

lemma ord_snoc_transmit:
  assumes "handed_over tr" "\<forall>e\<in>set tr. \<forall>j. is_delivery_of j e \<longrightarrow> Suc j < n"
  shows "handed_over (tr @ [Transmit n frags])"
  unfolding handed_over_def
proof
  fix k
  show "precedes (is_transmit_of (Suc k)) (is_delivery_of k) (tr @ [Transmit n frags])"
  proof (cases "Suc k = n")
    case True
    have "\<forall>e\<in>set (tr @ [Transmit n frags]). \<not> is_delivery_of k e"
      using assms(2) True by auto
    then show ?thesis by (rule precedes_no_b)
  next
    case False
    then have "\<forall>e\<in>set [Transmit n frags]. \<not> is_transmit_of (Suc k) e" by simp
    with assms(1) show ?thesis by (auto simp: handed_over_def intro: precedes_append_no_a)
  qed
qed

lemma transmissions_append: "transmissions (tr @ ext) = transmissions tr @ transmissions ext"
  by (induction tr rule: transmissions.induct) auto

lemma transmissions_deliveries: "\<forall>e\<in>set ext. \<exists>j. is_delivery_of j e \<Longrightarrow> transmissions ext = []"
  by (induction ext rule: transmissions.induct) auto

lemma advances_transmissions:
  "advances env st st' \<Longrightarrow> transmissions (trace st') = transmissions (trace st)"
  unfolding advances_def
  by (metis append_Nil2 transmissions_append transmissions_deliveries)

lemma advances_ord: "advances env st st' \<Longrightarrow> handed_over (trace st) \<Longrightarrow> handed_over (trace st')"
  unfolding advances_def
  by (metis ord_append_deliveries)

lemma inv_mono: "loop_inv n st \<Longrightarrow> n \<le> n' \<Longrightarrow> loop_inv n' st"
  unfolding loop_inv_def by (meson less_le_trans)

lemma inv_total_fresh: "loop_inv n st \<Longrightarrow> chunk_calls env n st = []"
proof -
  assume i: "loop_inv n st"
  then have "n \<notin> jobnos st" by (auto simp: loop_inv_def)
  then have "pending env n (jobs st) = []" by (simp add: jobnos_def pending_absent)
  moreover have "\<not> is_delivery_of n x" if "x \<in> set (trace st)" for x
  proof
    assume "is_delivery_of n x"
    with i that have "Suc n < n" unfolding loop_inv_def by blast
    then show False by simp
  qed
  then have "filter (is_delivery_of n) (trace st) = []"
    by (simp add: filter_empty_conv)
  ultimately show ?thesis by (simp add: chunk_calls_def)
qed

lemma transmit_inv:
  assumes "loop_inv n st"
  shows "loop_inv (Suc n) (st\<lparr>trace := trace st @ [Transmit n frags]\<rparr>)"
    and "jobnos (st\<lparr>trace := trace st @ [Transmit n frags]\<rparr>) = jobnos st"
    and "chunk_calls env k (st\<lparr>trace := trace st @ [Transmit n frags]\<rparr>) = chunk_calls env k st"
proof -
  have o: "handed_over (trace st @ [Transmit n frags])"
    using assms by (intro ord_snoc_transmit) (auto simp: loop_inv_def)
  show "loop_inv (Suc n) (st\<lparr>trace := trace st @ [Transmit n frags]\<rparr>)"
    using assms o unfolding loop_inv_def jobnos_def by (auto simp: less_Suc_eq)
  show "jobnos (st\<lparr>trace := trace st @ [Transmit n frags]\<rparr>) = jobnos st"
    by (simp add: jobnos_def)
  show "chunk_calls env k (st\<lparr>trace := trace st @ [Transmit n frags]\<rparr>) = chunk_calls env k st"
    by (simp add: chunk_calls_def)
qed

lemma advances_inv:
  assumes "advances env st st'" "loop_inv (Suc n) st" "\<forall>j\<in>jobnos st. j < n"
  shows "loop_inv (Suc n) st'" and "\<forall>j\<in>jobnos st'. j < n"
proof -
  from assms(1) obtain ext where e: "trace st' = trace st @ ext"
    "\<forall>e\<in>set ext. \<exists>j\<in>jobnos st. is_delivery_of j e" and s: "jobnos st' \<subseteq> jobnos st"
    and d: "distinct (map fst (jobs st'))"
    by (auto simp: advances_def)
  show j: "\<forall>j\<in>jobnos st'. j < n" using s assms(3) by auto
  have ev: "(is_delivery_of j x \<longrightarrow> Suc j < Suc n) \<and> (is_transmit_of j x \<longrightarrow> j < Suc n)"
    if "x \<in> set ext" for x j
  proof -
    from e(2) that obtain i where i: "i \<in> jobnos st" "is_delivery_of i x" by auto
    with assms(3) have "i < n" by auto
    with i show ?thesis by (cases x) auto
  qed
  have "handed_over (trace st')" using assms(1,2) by (auto simp: loop_inv_def intro: advances_ord)
  with e ev d j assms(2) show "loop_inv (Suc n) st'"
    unfolding loop_inv_def by (auto simp: less_Suc_eq)
qed

subsection \<open>one chunk\<close>

lemma schedule_effect:
  assumes "loop_inv (Suc n) st" "\<forall>j\<in>jobnos st. j < n"
  shows "loop_inv (Suc n) (schedule n ch arr st)"
    and "chunk_calls env k (schedule n ch arr st)
           = chunk_calls env k st @ (if k = n then chain_events env n ch (entries arr) else [])"
    and "trace (schedule n ch arr st) = trace st"
proof -
  show "trace (schedule n ch arr st) = trace st"
    by (simp add: schedule_def split: list.splits)
  show "chunk_calls env k (schedule n ch arr st)
           = chunk_calls env k st @ (if k = n then chain_events env n ch (entries arr) else [])"
    by (cases "entries arr") (simp_all add: schedule_def chunk_calls_def pending_append pending_Cons)
  have "n \<notin> fst ` set (jobs st)" using assms(2) by (auto simp: jobnos_def)
  then show "loop_inv (Suc n) (schedule n ch arr st)"
    using assms unfolding loop_inv_def jobnos_def
    by (cases "entries arr") (auto simp: schedule_def less_Suc_eq)
qed

lemma process_chunk_format_fails:
  "formatRequests env ch = Inl e \<Longrightarrow> process_chunk env n ch st = Inl (e, st)"
  by (simp add: process_chunk_def)

lemma await_effect:
  fixes env :: "('q, 'j, 'x) env" and st :: "('q, 'j, 'x) state"
    and frags :: "'j IGraphBatchRequestFragment list"
  assumes "loop_inv n st"
  defines "st1 \<equiv> run_ticks env (latency env n) (st\<lparr>trace := trace st @ [Transmit n frags]\<rparr>)"
  shows "loop_inv (Suc n) st1" and "\<forall>j\<in>jobnos st1. j < n"
    and "transmissions (trace st1) = transmissions (trace st) @ [(n, frags)]"
    and "chunk_calls env k st1 = chunk_calls env k st"
proof -
  let ?st0 = "st\<lparr>trace := trace st @ [Transmit n frags]\<rparr>"
  have d: "distinct (map fst (jobs ?st0))" using assms(1) by (simp add: loop_inv_def)
  have a: "advances env ?st0 st1" unfolding st1_def by (rule run_ticks_advances [OF d])
  have i0: "loop_inv (Suc n) ?st0" by (rule transmit_inv(1) [OF assms(1)])
  have j0: "\<forall>j\<in>jobnos ?st0. j < n" using assms(1) by (simp add: loop_inv_def jobnos_def)
  show "loop_inv (Suc n) st1" by (rule advances_inv(1) [OF a i0 j0])
  show "\<forall>j\<in>jobnos st1. j < n" by (rule advances_inv(2) [OF a i0 j0])
  show "transmissions (trace st1) = transmissions (trace st) @ [(n, frags)]"
    using advances_transmissions [OF a] by (simp add: transmissions_append)
  show "chunk_calls env k st1 = chunk_calls env k st"
    using a transmit_inv(3) [OF assms(1), where env = env and k = k and frags = frags] by (simp add: advances_def)
qed

lemma process_chunk_transport_fails:
  assumes "loop_inv n st" "formatRequests env ch = Inr frags" "graphPost env n frags = Inl e"
  shows "\<exists>st'. process_chunk env n ch st = Inl (e, st') \<and> loop_inv (Suc n) st'
           \<and> transmissions (trace st') = transmissions (trace st) @ [(n, frags)]
           \<and> (\<forall>k. chunk_calls env k st' = chunk_calls env k st)"
  using assms(2,3) await_effect [where env = env and frags = frags, OF assms(1)]
  by (simp add: process_chunk_def Let_def)

lemma process_chunk_answered:
  assumes "loop_inv n st" "formatRequests env ch = Inr frags" "graphPost env n frags = Inr r"
  shows "\<exists>st'. process_chunk env n ch st = Inr st' \<and> loop_inv (Suc n) st'
           \<and> transmissions (trace st') = transmissions (trace st) @ [(n, frags)]
           \<and> (\<forall>k. chunk_calls env k st'
                    = (if k = n then chain_events env n ch (entries (pr_responses r))
                       else chunk_calls env k st))"
proof -
  let ?st1 = "run_ticks env (latency env n) (st\<lparr>trace := trace st @ [Transmit n frags]\<rparr>)"
  let ?st' = "schedule n ch (pr_responses r) ?st1"
  note aw = await_effect [where env = env and frags = frags, OF assms(1)]
  note sc = schedule_effect [OF aw(1) aw(2), where ch = ch and arr = "pr_responses r"]
  have p: "process_chunk env n ch st = Inr ?st'"
    using assms(2,3) by (simp add: process_chunk_def Let_def)
  have t: "chunk_calls env k ?st'
             = (if k = n then chain_events env n ch (entries (pr_responses r)) else chunk_calls env k st)"
    for k
    using sc(2) [where env = env and k = k] aw(4) [where k = k] inv_total_fresh [OF assms(1), where env = env] by simp
  show ?thesis
    using p sc(1) sc(3) aw(3) t by simp
qed

subsection \<open>the loop\<close>

lemma answered_cases:
  obtains (ok) frags r where "formatRequests env c = Inr frags" "graphPost env k frags = Inr r"
      "answered env k c" "frags_of env c = frags" "cells_of env k c = pr_responses r"
  | (bad_format) e where "formatRequests env c = Inl e" "\<not> answered env k c"
  | (bad_transport) frags e where "formatRequests env c = Inr frags" "graphPost env k frags = Inl e"
      "\<not> answered env k c" "frags_of env c = frags"
proof (cases "formatRequests env c")
  case (Inl e)
  then show ?thesis using bad_format by (simp add: answered_def)
next
  case (Inr frags)
  show ?thesis
  proof (cases "graphPost env k frags")
    case (Inl e)
    with Inr show ?thesis using bad_transport by (simp add: answered_def frags_of_def)
  next
    case r: (Inr r)
    with Inr show ?thesis using ok by (simp add: answered_def frags_of_def cells_of_def)
  qed
qed

lemma run_chunks_inv: "loop_inv k st \<Longrightarrow> \<exists>n. loop_inv n (snd (run_chunks env k st cs))"
proof (induction cs arbitrary: k st)
  case Nil
  then show ?case by auto
next
  case (Cons c cs)
  show ?case
  proof (cases rule: answered_cases [of env c k])
    case (ok frags r)
    from process_chunk_answered [OF Cons.prems ok(1,2)]
    obtain st' where "process_chunk env k c st = Inr st'" "loop_inv (Suc k) st'" by auto
    with Cons.IH [of "Suc k" st'] show ?thesis by simp
  next
    case (bad_format e)
    with Cons.prems show ?thesis by (auto simp: process_chunk_format_fails)
  next
    case (bad_transport frags e)
    from process_chunk_transport_fails [OF Cons.prems bad_transport(1,2)]
    show ?thesis by auto
  qed
qed

lemma run_chunks_total:
  "loop_inv k st \<Longrightarrow>
   chunk_calls env j (snd (run_chunks env k st cs))
     = (if k \<le> j \<and> j < k + completed env k cs
        then chain_events env j (cs ! (j - k)) (entries (cells_of env j (cs ! (j - k))))
        else chunk_calls env j st)"
proof (induction cs arbitrary: k st)
  case Nil
  show ?case by auto
next
  case (Cons c cs)
  show ?case
  proof (cases rule: answered_cases [of env c k])
    case (ok frags r)
    from process_chunk_answered [OF Cons.prems ok(1,2)]
    obtain st' where p: "process_chunk env k c st = Inr st'" and i: "loop_inv (Suc k) st'"
      and t: "\<forall>k'. chunk_calls env k' st'
                = (if k' = k then chain_events env k c (entries (pr_responses r))
                   else chunk_calls env k' st)"
      by auto
    show ?thesis
    proof (cases "j = k")
      case True
      then show ?thesis using p ok t Cons.IH [OF i] by simp
    next
      case False
      then have "(Suc k \<le> j) = (k \<le> j)" by auto
      moreover from False have "k \<le> j \<Longrightarrow> (c # cs) ! (j - k) = cs ! (j - Suc k)"
        by (simp add: nth_Cons')
      ultimately show ?thesis using p ok t False Cons.IH [OF i] by auto
    qed
  next
    case (bad_format e)
    then show ?thesis by (auto simp add: process_chunk_format_fails)
  next
    case (bad_transport frags e)
    from process_chunk_transport_fails [OF Cons.prems bad_transport(1,2)]
    show ?thesis using bad_transport by auto
  qed
qed

lemma run_chunks_all_answered:
  "loop_inv k st \<Longrightarrow> completed env k cs = length cs \<Longrightarrow>
   fst (run_chunks env k st cs) = Returned
   \<and> transmissions (trace (snd (run_chunks env k st cs)))
       = transmissions (trace st) @ map (\<lambda>i. (k + i, frags_of env (cs ! i))) [0..<length cs]"
proof (induction cs arbitrary: k st)
  case Nil
  then show ?case by simp
next
  case (Cons c cs)
  from Cons.prems(2) have a: "answered env k c" and rest: "completed env (Suc k) cs = length cs"
    by (auto split: if_splits)
  show ?case
  proof (cases rule: answered_cases [of env c k])
    case (ok frags r)
    from process_chunk_answered [OF Cons.prems(1) ok(1,2)]
    obtain st' where p: "process_chunk env k c st = Inr st'" and i: "loop_inv (Suc k) st'"
      and t: "transmissions (trace st') = transmissions (trace st) @ [(k, frags)]"
      by auto
    have "map (\<lambda>i. (k + i, frags_of env ((c # cs) ! i))) [0..<length (c # cs)]
            = (k, frags) # map (\<lambda>i. (Suc k + i, frags_of env (cs ! i))) [0..<length cs]"
      using ok(4) by (simp add: upt_conv_Cons [of 0] map_Suc_upt [symmetric] del: upt_Suc)
    then show ?thesis using p t Cons.IH [OF i rest] by simp
  next
    case (bad_format e)
    with a show ?thesis by simp
  next
    case (bad_transport frags e)
    with a show ?thesis by simp
  qed
qed

lemma run_chunks_fails_at:
  "loop_inv k st \<Longrightarrow> completed env k cs = n \<Longrightarrow> n < length cs \<Longrightarrow>
   formatRequests env (cs ! n) = Inr frags \<Longrightarrow> graphPost env (k + n) frags = Inl e \<Longrightarrow>
   fst (run_chunks env k st cs) = Failed e"
proof (induction cs arbitrary: k st n)
  case Nil
  then show ?case by simp
next
  case (Cons c cs)
  show ?case
  proof (cases rule: answered_cases [of env c k])
    case (ok frags' r)
    from process_chunk_answered [OF Cons.prems(1) ok(1,2)]
    obtain st' where p: "process_chunk env k c st = Inr st'" and i: "loop_inv (Suc k) st'"
      by auto
    from ok Cons.prems(2) obtain n' where n': "n = Suc n'" "completed env (Suc k) cs = n'"
      by auto
    with Cons.prems have "n' < length cs" "formatRequests env (cs ! n') = Inr frags"
      "graphPost env (Suc k + n') frags = Inl e" by auto
    from Cons.IH [OF i n'(2) this] p show ?thesis by simp
  next
    case (bad_format e')
    with Cons.prems show ?thesis by simp
  next
    case (bad_transport frags' e')
    with Cons.prems have "n = 0" by simp
    with Cons.prems bad_transport have "frags' = frags" "e' = e" by auto
    with process_chunk_transport_fails [OF Cons.prems(1) bad_transport(1,2)]
    show ?thesis by auto
  qed
qed

lemma run_chunks_transmit_order:
  "loop_inv k st \<Longrightarrow>
   \<exists>n. map fst (transmissions (trace (snd (run_chunks env k st cs))))
         = map fst (transmissions (trace st)) @ [k..<k + n]"
proof (induction cs arbitrary: k st)
  case Nil
  have "map fst (transmissions (trace st)) = map fst (transmissions (trace st)) @ [k..<k + 0]"
    by simp
  then show ?case by (metis run_chunks.simps(1) snd_conv)
next
  case (Cons c cs)
  show ?case
  proof (cases rule: answered_cases [of env c k])
    case (ok frags r)
    from process_chunk_answered [OF Cons.prems ok(1,2)]
    obtain st' where p: "process_chunk env k c st = Inr st'" and i: "loop_inv (Suc k) st'"
      and t: "transmissions (trace st') = transmissions (trace st) @ [(k, frags)]"
      by auto
    from Cons.IH [OF i] obtain n where
      n: "map fst (transmissions (trace (snd (run_chunks env (Suc k) st' cs))))
            = map fst (transmissions (trace st')) @ [Suc k..<Suc k + n]" by auto
    have "[k..<k + Suc n] = k # [Suc k..<Suc k + n]" by (simp add: upt_conv_Cons)
    with n t p have "map fst (transmissions (trace (snd (run_chunks env k st (c # cs)))))
            = map fst (transmissions (trace st)) @ [k..<k + Suc n]" by simp
    then show ?thesis by blast
  next
    case (bad_format e)
    have "map fst (transmissions (trace st)) = map fst (transmissions (trace st)) @ [k..<k + 0]"
      by simp
    with bad_format show ?thesis
      by (metis process_chunk_format_fails run_chunks.simps(2) sum.simps(5) case_prod_conv snd_conv)
  next
    case (bad_transport frags e)
    from process_chunk_transport_fails [OF Cons.prems bad_transport(1,2)]
    obtain st' where p: "process_chunk env k c st = Inl (e, st')"
      and t: "transmissions (trace st') = transmissions (trace st) @ [(k, frags)]"
      by auto
    have "[k..<k + Suc 0] = [k]" by simp
    with p t have "map fst (transmissions (trace (snd (run_chunks env k st (c # cs)))))
            = map fst (transmissions (trace st)) @ [k..<k + Suc 0]" by simp
    then show ?thesis by blast
  qed
qed

lemma inv_start: "loop_inv 0 start"
  by (simp add: loop_inv_def start_def jobnos_def handed_over_def precedes_def)

lemma total_start: "chunk_calls env k start = []"
  by (simp add: chunk_calls_def start_def)

lemma drain_start: "drain env start = start"
  by (subst drain.simps) (simp add: start_def)

lemma execute_run_chunks:
  assumes "0 < m"
  shows "execute env m \<lparr>cb_registrationPromises = [], cb_requests = reqs\<rparr>
           = Some (fst (run_chunks env 0 start (chunks m reqs)), flush_end env m reqs)"
proof (cases "reqs = []")
  case True
  then show ?thesis
    by (simp add: execute_def flush_end_def chunks_Nil drain_start) (simp add: start_def)
next
  case False
  then show ?thesis
    using execute_loop_run_chunks [OF assms, of env 0 start reqs]
    by (simp add: execute_def flush_end_def start_def split: prod.splits)
qed

lemma flush_end_facts:
  shows flush_end_jobs: "jobs (flush_end env m reqs) = []"
    and flush_end_ord: "handed_over (trace (flush_end env m reqs))"
    and flush_end_transmissions:
      "transmissions (trace (flush_end env m reqs))
         = transmissions (trace (snd (run_chunks env 0 start (chunks m reqs))))"
    and flush_end_deliveries:
      "filter (is_delivery_of k) (trace (flush_end env m reqs))
         = (if k < completed env 0 (chunks m reqs)
            then chain_events env k (chunks m reqs ! k) (entries (cells_of env k (chunks m reqs ! k)))
            else [])"
proof -
  let ?st = "snd (run_chunks env 0 start (chunks m reqs))"
  obtain n where n: "loop_inv n ?st" using run_chunks_inv [OF inv_start] by blast
  then have d: "distinct (map fst (jobs ?st))" and o: "handed_over (trace ?st)" by (auto simp: loop_inv_def)
  have a: "advances env ?st (flush_end env m reqs)"
    unfolding flush_end_def by (rule drain_advances [OF d])
  show j: "jobs (flush_end env m reqs) = []" by (simp add: flush_end_def drain_jobs)
  show "handed_over (trace (flush_end env m reqs))" by (rule advances_ord [OF a o])
  show "transmissions (trace (flush_end env m reqs)) = transmissions (trace ?st)"
    by (rule advances_transmissions [OF a])
  have "filter (is_delivery_of k) (trace (flush_end env m reqs)) = chunk_calls env k (flush_end env m reqs)"
    by (simp add: chunk_calls_def j)
  also have "\<dots> = chunk_calls env k ?st" using a by (simp add: advances_def)
  also have "\<dots> = (if k < completed env 0 (chunks m reqs)
            then chain_events env k (chunks m reqs ! k) (entries (cells_of env k (chunks m reqs ! k)))
            else [])"
    using run_chunks_total [OF inv_start, of env k "chunks m reqs"] by (simp add: total_start)
  finally show "filter (is_delivery_of k) (trace (flush_end env m reqs))
         = (if k < completed env 0 (chunks m reqs)
            then chain_events env k (chunks m reqs ! k) (entries (cells_of env k (chunks m reqs ! k)))
            else [])" .
qed

lemma length_chunks: "length (chunks m xs) = (length xs + m - 1) div m"
  by (simp add: chunks_def)

lemma nth_chunks: "k < length (chunks m xs) \<Longrightarrow> chunks m xs ! k = chunk_at m k xs"
  by (simp add: chunks_def)

lemma completed_le: "completed env k cs \<le> length cs"
  by (induction cs arbitrary: k) auto

lemma completed_all:
  "(\<forall>i<length cs. answered env (k + i) (cs ! i)) \<Longrightarrow> completed env k cs = length cs"
proof (induction cs arbitrary: k)
  case Nil
  then show ?case by simp
next
  case (Cons c cs)
  from Cons.prems have "answered env k c" by force
  moreover have "\<forall>i<length cs. answered env (Suc k + i) (cs ! i)"
    using Cons.prems by force
  ultimately show ?case using Cons.IH [of "Suc k"] by simp
qed

lemma completed_stop:
  "(\<forall>i<n. answered env (k + i) (cs ! i)) \<Longrightarrow> n < length cs \<Longrightarrow> \<not> answered env (k + n) (cs ! n)
   \<Longrightarrow> completed env k cs = n"
proof (induction cs arbitrary: k n)
  case Nil
  then show ?case by simp
next
  case (Cons c cs)
  show ?case
  proof (cases n)
    case 0
    with Cons.prems show ?thesis by simp
  next
    case (Suc n')
    with Cons.prems have "answered env k c" by force
    moreover have "\<forall>i<n'. answered env (Suc k + i) (cs ! i)"
      using Cons.prems Suc by force
    moreover have "n' < length cs" "\<not> answered env (Suc k + n') (cs ! n')"
      using Cons.prems Suc by auto
    ultimately show ?thesis using Cons.IH [of n' "Suc k"] Suc by simp
  qed
qed

subsection \<open>registration\<close>

lemma queued_props:
  "length (queued calls) = length calls
   \<and> map rr_promise (queued calls) = [0..<length calls]"
proof -
  have "map rr_promise (queued calls) = [0..<length calls]"
    by (rule nth_equalityI) (simp_all add: queued_def nth_enumerate_eq split_beta)
  then show ?thesis by (simp add: queued_def)
qed

lemma length_queued [simp]: "length (queued calls) = length calls"
  by (simp add: queued_props)

lemma promise_queued: "n < length calls \<Longrightarrow> rr_promise (queued calls ! n) = n"
proof -
  assume n: "n < length calls"
  then have "rr_promise (queued calls ! n) = map rr_promise (queued calls) ! n"
    by simp
  also have "\<dots> = n" using n by (simp add: queued_props)
  finally show ?thesis .
qed

lemma chunk_at_nth:
  assumes "i < length (chunk_at m k xs)"
  shows "chunk_at m k xs ! i = xs ! (k * m + i)" and "k * m + i < length xs" and "i < m"
  using assms by (auto simp: chunk_at_def)

lemma length_chunk_at: "length (chunk_at m k xs) = min m (length xs - k * m)"
  by (simp add: chunk_at_def)

lemma promise_chunk_queued:
  assumes "i < length (chunk_at m k (queued calls))"
  shows "rr_promise (chunk_at m k (queued calls) ! i) = k * m + i"
  using chunk_at_nth [OF assms] by (simp add: promise_queued)

subsection \<open>the events of a chain\<close>

lemma deliver_shape:
  assumes "deliver env k ch (i, c) = (evs, r)"
  shows "evs = [] \<and> \<not> r \<and> length ch \<le> i
         \<or> i < length ch
           \<and> (evs = [Resolve k (rr_promise (ch ! i)) c] \<and> r
                \<and> resolve_raises env (rr_promise (ch ! i)) c = None
              \<or> (\<exists>x. evs = [Resolve k (rr_promise (ch ! i)) c, Reject k (rr_promise (ch ! i)) x]
                     \<and> resolve_raises env (rr_promise (ch ! i)) c = Some x))"
  using assms by (auto simp: deliver_def Let_def split: if_splits option.splits)

lemma chain_events_member:
  "e \<in> set (chain_events env k ch es) \<Longrightarrow>
   is_delivery_of k e \<and> (\<exists>i\<in>fst ` set es. i < length ch \<and> event_promise e = rr_promise (ch ! i))"
proof (induction es)
  case Nil
  then show ?case by simp
next
  case (Cons a es)
  obtain i c where a: "a = (i, c)" by (cases a) auto
  obtain evs r where d: "deliver env k ch (i, c) = (evs, r)"
    by (cases "deliver env k ch (i, c)") auto
  from Cons.prems a d have "e \<in> set evs \<or> e \<in> set (chain_events env k ch es)"
    by (auto split: if_splits)
  then show ?case
  proof
    assume "e \<in> set evs"
    with deliver_shape [OF d] a show ?thesis by auto
  next
    assume "e \<in> set (chain_events env k ch es)"
    with Cons.IH show ?thesis by auto
  qed
qed

lemma chain_events_ascending:
  assumes "sorted_wrt (<) (map fst es)" "\<forall>i<length ch. rr_promise (ch ! i) = b + i"
  shows "sorted_wrt (\<le>) (map event_promise (chain_events env k ch es))
         \<and> sorted_wrt (<) (map event_promise (filter is_resolve (chain_events env k ch es)))"
  using assms(1)
proof (induction es)
  case Nil
  then show ?case by simp
next
  case (Cons a es)
  obtain i c where a: "a = (i, c)" by (cases a) auto
  obtain evs r where d: "deliver env k ch (i, c) = (evs, r)"
    by (cases "deliver env k ch (i, c)") auto
  from Cons.prems have later: "\<forall>j\<in>fst ` set es. i < j" and s: "sorted_wrt (<) (map fst es)"
    using a by auto
  note ih = Cons.IH [OF s]
  have after: "b + i < event_promise e" if "e \<in> set (chain_events env k ch es)" for e
  proof -
    from chain_events_member [OF that] obtain j where
      "j \<in> fst ` set es" "j < length ch" "event_promise e = rr_promise (ch ! j)" by auto
    with later assms(2) show ?thesis by auto
  qed
  have here: "event_promise e = b + i" if "e \<in> set evs" for e
    using deliver_shape [OF d] that assms(2) by auto
  have evs1: "sorted_wrt (\<le>) (map event_promise evs)"
    using deliver_shape [OF d] by auto
  have evs2: "sorted_wrt (<) (map event_promise (filter is_resolve evs))"
    using deliver_shape [OF d] by auto
  show ?case
  proof (cases r)
    case True
    have "sorted_wrt (\<le>) (map event_promise (evs @ chain_events env k ch es))"
      using evs1 ih here after by (auto simp: sorted_wrt_append intro: less_imp_le)
    moreover have "sorted_wrt (<) (map event_promise (filter is_resolve (evs @ chain_events env k ch es)))"
      using evs2 ih here after by (auto simp: sorted_wrt_append)
    ultimately show ?thesis using a d True by simp
  next
    case False
    then show ?thesis using a d evs1 evs2 by simp
  qed
qed

lemma chain_events_no_raise:
  assumes "\<forall>p c. resolve_raises env p c = None"
  shows "chain_events env k ch es
           = map (\<lambda>(i, c). Resolve k (rr_promise (ch ! i)) c) (takeWhile (\<lambda>e. fst e < length ch) es)"
proof (induction es)
  case Nil
  then show ?case by simp
next
  case (Cons a es)
  obtain i c where a: "a = (i, c)" by (cases a) auto
  show ?case
    using Cons.IH assms by (simp add: a deliver_def Let_def)
qed

subsection \<open>the elements that reduce visits\<close>

lemma entries_sorted: "sorted_wrt (<) (map fst (entries arr))"
proof -
  have "sorted_wrt (<) (map fst (enumerate 0 arr))" by simp
  then have "sorted_wrt (\<lambda>x y. fst x < fst y) (enumerate 0 arr)"
    by (simp only: sorted_wrt_map)
  then have "sorted_wrt (\<lambda>x y. fst x < fst y) (entries arr)"
    unfolding entries_def by (rule sorted_wrt_filter)
  then show ?thesis by (simp only: sorted_wrt_map)
qed

lemma takeWhile_none: "\<forall>x\<in>set xs. \<not> P x \<Longrightarrow> takeWhile P xs = []"
  by (cases xs) auto

lemma entries_full_prefix:
  assumes "n \<le> length arr" "\<forall>i<n. arr ! i \<noteq> Hole"
  shows "takeWhile (\<lambda>e. fst e < n) (entries arr) = zip [0..<n] (take n arr)"
proof -
  have split: "enumerate 0 arr = enumerate 0 (take n arr) @ enumerate n (drop n arr)"
    using assms(1) enumerate_append_eq [of 0 "take n arr" "drop n arr"] by (simp add: min_def)
  have first: "filter (\<lambda>(i, c). c \<noteq> Hole) (enumerate 0 (take n arr)) = enumerate 0 (take n arr)"
  proof (rule filter_True)
    show "\<forall>e\<in>set (enumerate 0 (take n arr)). case e of (i, c) \<Rightarrow> c \<noteq> Hole"
    proof
      fix e
      assume e: "e \<in> set (enumerate 0 (take n arr))"
      then have "fst e < n" "snd e = arr ! fst e"
        using assms(1) by (auto simp: in_set_enumerate_eq)
      with assms(2) show "case e of (i, c) \<Rightarrow> c \<noteq> Hole"
        by (cases e) auto
    qed
  qed
  have low: "\<forall>e\<in>set (enumerate 0 (take n arr)). fst e < n"
    using assms(1) by (auto simp: in_set_enumerate_eq)
  have high: "\<forall>e\<in>set (filter (\<lambda>(i, c). c \<noteq> Hole) (enumerate n (drop n arr))). \<not> fst e < n"
    by (auto simp: in_set_enumerate_eq)
  have "takeWhile (\<lambda>e. fst e < n) (filter (\<lambda>(i, c). c \<noteq> Hole) (enumerate n (drop n arr))) = []"
    using high by (rule takeWhile_none)
  then have "takeWhile (\<lambda>e. fst e < n) (entries arr) = enumerate 0 (take n arr)"
    unfolding entries_def split using first low by (simp add: takeWhile_append2)
  also have "\<dots> = zip [0..<n] (take n arr)"
    using assms(1) by (simp add: enumerate_eq_zip min_def)
  finally show ?thesis .
qed

lemma chain_events_full:
  assumes "\<forall>p c. resolve_raises env p c = None" "length ch \<le> length arr"
    "\<forall>i<length ch. arr ! i \<noteq> Hole"
  shows "chain_events env k ch (entries arr)
           = map (\<lambda>i. Resolve k (rr_promise (ch ! i)) (arr ! i)) [0..<length ch]"
proof -
  have "chain_events env k ch (entries arr)
          = map (\<lambda>(i, c). Resolve k (rr_promise (ch ! i)) c) (zip [0..<length ch] (take (length ch) arr))"
    by (simp add: chain_events_no_raise [OF assms(1)] entries_full_prefix [OF assms(2,3)])
  also have "\<dots> = map (\<lambda>i. Resolve k (rr_promise (ch ! i)) (arr ! i)) [0..<length ch]"
    using assms(2) by (intro nth_equalityI) auto
  finally show ?thesis .
qed

subsection \<open>encoding\<close>

lemma map_from_Inr:
  "map_from f b xs = Inr ys \<Longrightarrow>
   length ys = length xs \<and> (\<forall>i<length xs. f (b + i) (xs ! i) = Inr (ys ! i))"
proof (induction xs arbitrary: b ys)
  case Nil
  then show ?case by simp
next
  case (Cons x xs)
  from Cons.prems obtain y ys' where y: "f b x = Inr y" "map_from f (Suc b) xs = Inr ys'"
    "ys = y # ys'"
    by (auto split: sum.splits)
  from Cons.IH [OF y(2)] have ih: "length ys' = length xs"
    "\<forall>i<length xs. f (Suc b + i) (xs ! i) = Inr (ys' ! i)" by auto
  show ?case
  proof (intro conjI allI impI)
    show "length ys = length (x # xs)" using y ih by simp
  next
    fix i
    assume "i < length (x # xs)"
    then show "f (b + i) ((x # xs) ! i) = Inr (ys ! i)"
      using y ih by (cases i) auto
  qed
qed

lemma formatRequest_fid: "formatRequest env i r = Inr fr \<Longrightarrow> fid fr = numToString (Suc i)"
  by (auto simp: formatRequest_def Let_def split: option.splits)

lemma formatRequests_ids:
  assumes "formatRequests env ch = Inr frags"
  shows "length frags = length ch" and "map fid frags = map (\<lambda>i. numToString (Suc i)) [0..<length ch]"
proof -
  note m = map_from_Inr [OF assms [unfolded formatRequests_def]]
  from m show l: "length frags = length ch" by simp
  show "map fid frags = map (\<lambda>i. numToString (Suc i)) [0..<length ch]"
  proof (rule nth_equalityI)
    show "length (map fid frags) = length (map (\<lambda>i. numToString (Suc i)) [0..<length ch])"
      using l by simp
  next
    fix i
    assume "i < length (map fid frags)"
    then have i: "i < length ch" using l by simp
    with m have "formatRequest env i (ch ! i) = Inr (frags ! i)" by simp
    from formatRequest_fid [OF this] i l
    show "map fid frags ! i = map (\<lambda>i. numToString (Suc i)) [0..<length ch] ! i" by simp
  qed
qed

lemma solid_array_set: "solid n arr \<Longrightarrow> v \<noteq> Hole \<Longrightarrow> solid n (array_set arr idx v)"
  by (auto simp: solid_def array_set_def nth_list_update nth_append split: option.splits)

lemma new_Response_Inr: "new_Response r = Inr x \<Longrightarrow> x = BodyResponse r"
  by (auto simp: new_Response_def Let_def split: if_splits)

lemma solid_place:
  "solid n arr \<Longrightarrow> place_response arr r = Inr arr' \<Longrightarrow> solid n arr'"
  by (auto simp: place_response_def Let_def solid_array_set split: if_splits sum.splits)

lemma solid_place_responses:
  "solid n arr \<Longrightarrow> place_responses arr rs = Inr arr' \<Longrightarrow> solid n arr'"
proof (induction rs arbitrary: arr)
  case Nil
  then show ?case by simp
next
  case (Cons r rs)
  from Cons.prems(2) obtain arr1 where
    a: "place_response arr r = Inr arr1" "place_responses arr1 rs = Inr arr'"
    by (auto split: sum.splits)
  from Cons.IH [OF solid_place [OF Cons.prems(1) a(1)] a(2)] show ?case .
qed

lemma parsed_cells_solid:
  "place_responses (replicate (length rs) Null) rs = Inr arr' \<Longrightarrow> solid (length rs) arr'"
  by (rule solid_place_responses [of _ "replicate (length rs) Null"]) (simp_all add: solid_def)

lemma parseResponse_Inr:
  assumes "parseResponse raw = Inr parsed"
  shows "gr_error raw = None"
    and "place_responses (replicate (length (gr_responses raw)) Null) (gr_responses raw)
           = Inr (pr_responses parsed)"
  using assms by (auto simp: parseResponse_def split: option.splits sum.splits)

lemma graphPost_Inr:
  fixes env :: "('q, 'j, 'x) env"
  assumes "graphPost env k frags = Inr parsed"
  shows "\<exists>raw. transport env k frags = Inr raw \<and> gr_error raw = None
           \<and> parseResponse raw = (Inr parsed :: 'x batch_error + 'j ParsedGraphResponse)"
  using assms by (auto simp: graphPost_def BatchParse_def split: sum.splits option.splits)

lemma graphPost_parse:
  assumes "transport env k frags = Inr raw"
  shows "graphPost env k frags = parseResponse raw"
  using assms by (auto simp: graphPost_def BatchParse_def parseResponse_def split: option.splits)

lemma graphPost_solid:
  assumes "transport env k frags = Inr raw" "graphPost env k frags = Inr parsed"
  shows "solid (length (gr_responses raw)) (pr_responses parsed)"
  using assms parseResponse_Inr(2) [of raw parsed]
  by (intro parsed_cells_solid) (simp add: graphPost_parse)

lemma graphPost_top_level_error:
  assumes "transport env k frags = Inr raw" "gr_error raw = Some (code, message)"
  shows "graphPost env k frags = Inl (BatchProcessingError code message)"
  using assms by (simp add: graphPost_def BatchParse_def)

lemma graphPost_transport_raises:
  assumes "transport env k frags = Inl x"
  shows "graphPost env k frags = Inl (Raised x)"
  using assms by (simp add: graphPost_def)

text \<open>Placing fragments whose ids are the printed numbers of positions in range.\<close>

lemma accepted_iff:
  "accepted r = (rstatus r = 204 \<or> new_Response r = Inr (BodyResponse r))"
  by (auto simp: accepted_def new_Response_def Let_def split: sum.splits)

lemma place_responses_accepted:
  "\<forall>r\<in>set rs. accepted r \<Longrightarrow> \<exists>arr'. place_responses arr rs = Inr arr'"
proof (induction rs arbitrary: arr)
  case Nil
  then show ?case by simp
next
  case (Cons r rs)
  from Cons.prems have "accepted r" by simp
  then have "rstatus r = 204 \<or> new_Response r = Inr (BodyResponse r)"
    by (simp only: accepted_iff)
  then obtain arr1 where a: "place_response arr r = Inr arr1"
    by (cases "rstatus r = 204") (auto simp: place_response_def Let_def)
  from Cons.IH [of arr1] Cons.prems obtain arr' where
    "place_responses arr1 rs = Inr arr'" by auto
  with a show ?case by simp
qed

lemma parseResponse_accepted:
  assumes "gr_error raw = None" "\<forall>r\<in>set (gr_responses raw). accepted r"
  shows "\<exists>parsed. parseResponse raw = (Inr parsed :: 'x batch_error + 'j ParsedGraphResponse)"
proof -
  from place_responses_accepted [OF assms(2)] obtain arr' where
    "place_responses (replicate (length (gr_responses raw)) Null) (gr_responses raw) = Inr arr'"
    by blast
  with assms(1) show ?thesis by (simp add: parseResponse_def)
qed

lemma accepted_echo: "accepted (echo fr)"
  by (simp add: accepted_def new_Response_def echo_def ushort_def isNullBodyStatus_def)

lemma place_in_range:
  assumes "rid r = numToString (Suc i)" "i < length arr" "rstatus r \<noteq> 204" "i < 4294967295"
    and "new_Response r = Inr x"
  shows "place_response arr r = Inr (arr[i := Resp (BodyResponse r)])"
  using assms new_Response_Inr [OF assms(5)]
  by (simp add: place_response_def Let_def parseInt10_numToString array_set_def)

lemma outcome_from_eq:
  "0 < m \<Longrightarrow> outcome_from env m reqs = Some (fst (run_chunks env 0 start (chunks m reqs)))"
  by (simp add: outcome_from_def flush_outcome_def execute_run_chunks)

lemma trace_from_eq: "0 < m \<Longrightarrow> trace_from env m reqs = trace (flush_end env m reqs)"
  by (simp add: trace_from_def flush_trace_def execute_run_chunks)

lemma solid_mono: "solid n arr \<Longrightarrow> n' \<le> n \<Longrightarrow> solid n' arr"
  by (simp add: solid_def)


lemma delivery_in_own_chunk:
  assumes "e \<in> set tr" "resolves p e \<or> rejects p e"
  shows "\<exists>j. e \<in> set (filter (is_delivery_of j) tr) \<and> event_promise e = p"
proof (cases e)
  case (Transmit j frags)
  with assms(2) show ?thesis by simp
next
  case (Resolve j q c)
  with assms show ?thesis by (intro exI [of _ j]) simp
next
  case (Reject j q x)
  with assms show ?thesis by (intro exI [of _ j]) simp
qed

lemma run_chunks_failed_transmissions:
  "loop_inv k st \<Longrightarrow> completed env k cs = n \<Longrightarrow> n < length cs \<Longrightarrow>
   formatRequests env (cs ! n) = Inr frags \<Longrightarrow>
   transmissions (trace (snd (run_chunks env k st cs)))
     = transmissions (trace st) @ map (\<lambda>i. (k + i, frags_of env (cs ! i))) [0..<Suc n]"
proof (induction cs arbitrary: k st n)
  case Nil
  then show ?case by simp
next
  case (Cons c cs)
  show ?case
  proof (cases rule: answered_cases [of env c k])
    case (ok frags' r)
    from process_chunk_answered [OF Cons.prems(1) ok(1,2)]
    obtain st' where p: "process_chunk env k c st = Inr st'" and i: "loop_inv (Suc k) st'"
      and t: "transmissions (trace st') = transmissions (trace st) @ [(k, frags')]"
      by auto
    from ok Cons.prems(2) obtain n' where n': "n = Suc n'" "completed env (Suc k) cs = n'"
      by auto
    with Cons.prems have "n' < length cs" "formatRequests env (cs ! n') = Inr frags" by auto
    note ih = Cons.IH [OF i n'(2) this]
    have "map (\<lambda>i. (k + i, frags_of env ((c # cs) ! i))) [0..<Suc n]
            = (k, frags') # map (\<lambda>i. (Suc k + i, frags_of env (cs ! i))) [0..<Suc n']"
      using ok(4) n'(1) by (simp add: map_upt_Suc del: upt_Suc)
    then show ?thesis using p t ih by (simp del: upt_Suc)
  next
    case (bad_format e')
    with Cons.prems have "n = 0" by simp
    with Cons.prems bad_format show ?thesis by simp
  next
    case (bad_transport frags' e')
    with Cons.prems have n: "n = 0" by simp
    from process_chunk_transport_fails [OF Cons.prems(1) bad_transport(1,2)]
    show ?thesis using bad_transport n by auto
  qed
qed

text \<open>What a flush leaves when the chunks before chunk \<open>K\<close> are answered and the awaited call for chunk \<open>K\<close> raises.\<close>

lemma flush_fails_at:
  assumes m: "0 < m" and K: "K * m < length calls"
    and before: "\<forall>k<K. answered env k (chunk_at m k (queued calls))"
    and f: "formatRequests env (chunk_at m K (queued calls)) = Inr frags"
    and g: "graphPost env K frags = Inl e"
  shows "outcome_from env m (queued calls) = Some (Failed e)"
    and "\<forall>p. K * m \<le> p \<longrightarrow> resolve_calls p (trace_from env m (queued calls)) = 0
            \<and> reject_calls p (trace_from env m (queued calls)) = 0"
    and "length (transmissions (trace_from env m (queued calls))) = Suc K"
proof -
  let ?reqs = "queued calls"
  let ?cs = "chunks m ?reqs"
  let ?tr = "trace_from env m ?reqs"
  have len: "K < length ?cs"
  proof -
    have "K * m + m \<le> length calls + m - 1" using K by simp
    then have "(K * m + m) div m \<le> (length calls + m - 1) div m" by (rule div_le_mono)
    then show ?thesis using m by (simp add: length_chunks)
  qed
  have nth: "?cs ! k = chunk_at m k ?reqs" if "k \<le> K" for k
    using that len by (simp add: nth_chunks)
  have notK: "\<not> answered env (0 + K) (?cs ! K)"
    using f g by (simp add: nth answered_def)
  have c: "completed env 0 ?cs = K"
    by (rule completed_stop) (use before nth len notK in auto)
  show "outcome_from env m ?reqs = Some (Failed e)"
    using run_chunks_fails_at [OF inv_start c len, of frags e] f g m
    by (simp add: outcome_from_eq nth)
  have tx: "transmissions ?tr
              = map (\<lambda>i. (0 + i, frags_of env (?cs ! i))) [0..<Suc K]"
    using run_chunks_failed_transmissions [OF inv_start c len, of frags] f m
    by (simp add: trace_from_eq flush_end_transmissions nth start_def)
  then show "length (transmissions ?tr) = Suc K" by simp
  have early: "event_promise ev < K * m" if "ev \<in> set (filter (is_delivery_of j) ?tr)" for ev j
  proof -
    from that have j: "j < K" and ev: "ev \<in> set (chain_events env j (?cs ! j)
        (entries (cells_of env j (?cs ! j))))"
      using m c by (auto simp: trace_from_eq flush_end_deliveries split: if_splits)
    from chain_events_member [OF ev] obtain i where
      i: "i < length (?cs ! j)" "event_promise ev = rr_promise ((?cs ! j) ! i)" by auto
    from j have cj: "?cs ! j = chunk_at m j ?reqs" by (simp add: nth)
    from i cj have "event_promise ev = j * m + i" "i < m"
      using promise_chunk_queued [of i m j calls] chunk_at_nth(3) [of i m j ?reqs] by auto
    moreover from j have "j * m + m \<le> K * m"
      by (metis Suc_leI mult_Suc mult_le_mono1 add.commute)
    ultimately show ?thesis by simp
  qed
  show "\<forall>p. K * m \<le> p \<longrightarrow> resolve_calls p ?tr = 0 \<and> reject_calls p ?tr = 0"
  proof (intro allI impI)
    fix p
    assume p: "K * m \<le> p"
    have "\<not> (resolves p ev \<or> rejects p ev)" if "ev \<in> set ?tr" for ev
    proof
      assume "resolves p ev \<or> rejects p ev"
      from delivery_in_own_chunk [OF that this] early p show False by force
    qed
    then show "resolve_calls p ?tr = 0 \<and> reject_calls p ?tr = 0"
      by (auto simp: resolve_calls_def reject_calls_def filter_empty_conv)
  qed
qed

lemma chunk_index: "0 < m \<Longrightarrow> (k < (n + m - 1) div m) = (k * m < (n::nat))"
proof -
  assume m: "0 < m"
  have "(k < (n + m - 1) div m) = (Suc k \<le> (n + m - 1) div m)" by auto
  also have "\<dots> = (Suc k * m \<le> n + m - 1)" using m by (simp add: less_eq_div_iff_mult_less_eq)
  also have "\<dots> = (k * m < n)" using m by auto
  finally show ?thesis .
qed

lemma answeredI:
  assumes "formatRequests env ch = Inr frags" "graphPost env k frags = Inr parsed"
  shows "answered env k ch" and "frags_of env ch = frags"
    and "cells_of env k ch = pr_responses parsed"
  using assms by (auto simp: answered_def frags_of_def cells_of_def)

lemma answered_solid:
  assumes "formatRequests env ch = Inr frags" "transport env k frags = Inr raw"
    and "graphPost env k frags = Inr parsed"
  shows "solid (length (gr_responses raw)) (cells_of env k ch)"
  using graphPost_solid [OF assms(2,3)] answeredI(3) [OF assms(1,3)] by simp

lemma flush_all_answered:
  assumes m: "0 < m" and a: "\<forall>k. k * m < length reqs \<longrightarrow> answered env k (chunk_at m k reqs)"
  shows "outcome_from env m reqs = Some Returned"
    and "transmissions (trace_from env m reqs)
           = map (\<lambda>k. (k, frags_of env (chunk_at m k reqs))) [0..<(length reqs + m - 1) div m]"
    and "filter (is_delivery_of k) (trace_from env m reqs)
           = (if k * m < length reqs
              then chain_events env k (chunk_at m k reqs)
                     (entries (cells_of env k (chunk_at m k reqs)))
              else [])"
proof -
  let ?cs = "chunks m reqs"
  have idx: "(k < length ?cs) = (k * m < length reqs)" for k
    using chunk_index [OF m, of k "length reqs"] by (simp only: length_chunks)
  have "answered env (0 + i) (?cs ! i)" if "i < length ?cs" for i
    using that a idx [of i] by (simp add: nth_chunks)
  then have c: "completed env 0 ?cs = length ?cs"
    by (intro completed_all) simp
  note r = run_chunks_all_answered [OF inv_start c]
  show "outcome_from env m reqs = Some Returned"
    using r m by (simp add: outcome_from_eq)
  have "map (\<lambda>i. (0 + i, frags_of env (?cs ! i))) [0..<length ?cs]
          = map (\<lambda>k. (k, frags_of env (chunk_at m k reqs))) [0..<(length reqs + m - 1) div m]"
    by (rule map_cong) (simp_all add: nth_chunks length_chunks)
  then show "transmissions (trace_from env m reqs)
           = map (\<lambda>k. (k, frags_of env (chunk_at m k reqs))) [0..<(length reqs + m - 1) div m]"
    using r m by (simp add: trace_from_eq flush_end_transmissions start_def)
  show "filter (is_delivery_of k) (trace_from env m reqs)
           = (if k * m < length reqs
              then chain_events env k (chunk_at m k reqs)
                     (entries (cells_of env k (chunk_at m k reqs)))
              else [])"
    using m c idx [of k] by (simp add: trace_from_eq flush_end_deliveries nth_chunks)
qed

lemma formatRequests_succeeds:
  assumes "\<forall>r\<in>set ch. log_raises env (rr_queryable r) = None
             \<and> (\<forall>b. init_body (rr_init r) = Some b \<longrightarrow> JSON_parse env b \<noteq> None)"
  shows "\<exists>frags. formatRequests env ch = Inr frags"
proof -
  have "\<exists>frags. map_from (formatRequest env) i ch = Inr frags" for i
    using assms
  proof (induction ch arbitrary: i)
    case Nil
    then show ?case by simp
  next
    case (Cons r ch)
    from Cons.prems have "\<exists>fr. formatRequest env i r = Inr fr"
      by (auto simp: formatRequest_def Let_def split: option.splits)
    moreover from Cons have "\<exists>frags. map_from (formatRequest env) (Suc i) ch = Inr frags"
      by simp
    ultimately show ?case by auto
  qed
  then show ?thesis by (simp add: formatRequests_def)
qed

lemma demo_env_formats: "\<exists>frags. formatRequests (demo_env tr) ch = Inr frags"
  by (rule formatRequests_succeeds) (simp add: demo_env_def)

lemma echo_transport_answers:
  assumes "transport env k frags = echo_transport k frags" "formatRequests env ch = Inr frags"
  shows "\<exists>raw parsed. transport env k frags = Inr raw \<and> graphPost env k frags = Inr parsed
           \<and> length ch \<le> length (gr_responses raw)"
proof -
  let ?raw = "\<lparr>gr_error = None, gr_responses = map echo (rev frags), gr_nextLink = None\<rparr>"
  have t: "transport env k frags = Inr ?raw" using assms(1) by (simp add: echo_transport_def)
  have "\<exists>parsed. parseResponse ?raw = (Inr parsed :: nat batch_error + nat ParsedGraphResponse)"
    by (rule parseResponse_accepted) (auto simp: accepted_echo)
  then obtain parsed where "graphPost env k frags = Inr parsed"
    using graphPost_parse [OF t] by auto
  with t formatRequests_ids(1) [OF assms(2)] show ?thesis by auto
qed

lemma demo_echo_answers:
  "\<exists>frags raw parsed. formatRequests (demo_env echo_transport) ch = Inr frags
     \<and> transport (demo_env echo_transport) k frags = Inr raw
     \<and> graphPost (demo_env echo_transport) k frags = Inr parsed
     \<and> length ch \<le> length (gr_responses raw)"
proof -
  obtain frags where f: "formatRequests (demo_env echo_transport) ch = Inr frags"
    using demo_env_formats by blast
  have "transport (demo_env echo_transport) k frags = echo_transport k frags"
    by (simp add: demo_env_def)
  from echo_transport_answers [OF this f] f show ?thesis by auto
qed

lemma list3: "length xs = 3 \<Longrightarrow> xs = [xs ! 0, xs ! 1, xs ! 2]"
  by (rule nth_equalityI) (auto simp: nth_Cons' less_Suc_eq numeral_3_eq_3 numeral_2_eq_2)


subsection \<open>batches\<close>

lemma batch_after_snoc: "batch_after (acts @ [a]) = act (batch_after acts) a"
  by (simp add: batch_after_def)

lemma sends_append: "sends (acts @ acts') = sends acts @ sends acts'"
  by (induction acts rule: sends.induct) simp_all

lemma queued_snoc:
  "queued (calls @ [(this, url, init)])
     = queued calls @ [\<lparr>rr_queryable = this, rr_url = url, rr_init = init,
                         rr_promise = length calls\<rparr>]"
  by (simp add: queued_def enumerate_append_eq)

lemma requests_batch_after: "cb_requests (batch_after acts) = queued (sends acts)"
proof (induction acts rule: rev_induct)
  case Nil
  then show ?case by (simp add: batch_after_def createBatch_def queued_def)
next
  case (snoc a acts)
  show ?case
  proof (cases a)
    case Register
    with snoc show ?thesis by (simp add: batch_after_snoc register_def sends_append)
  next
    case (Send i call)
    obtain this url init where c: "call = (this, url, init)" by (cases call) auto
    from snoc Send c show ?thesis
      by (simp add: batch_after_snoc send_intercept_def sends_append queued_snoc)
  qed
qed

lemma execute_settled:
  assumes "registrations_settled b"
  shows "execute env m b = execute env m \<lparr>cb_registrationPromises = [], cb_requests = cb_requests b\<rparr>"
  using assms by (simp add: execute_def registrations_settled_def)

lemma flush_settled:
  assumes "registrations_settled b"
  shows "flush_outcome env m b = outcome_from env m (cb_requests b)"
    and "flush_trace env m b = trace_from env m (cb_requests b)"
  using execute_settled [OF assms, of env m]
  by (simp_all add: flush_outcome_def flush_trace_def outcome_from_def trace_from_def)

text \<open>A flush of a batch with a pending registration promise never ends and does nothing.\<close>

lemma flush_waits_for_registrations:
  assumes "\<not> registrations_settled b"
  shows "flush_outcome env m b = None" and "flush_trace env m b = []"
  using assms by (simp_all add: flush_outcome_def flush_trace_def execute_def registrations_settled_def)

lemma senders_snoc: "senders (calls @ [c]) = senders calls @ [Register, Send (length calls) c]"
  by (simp add: senders_def enumerate_append_eq)

lemma sends_senders: "sends (senders calls) = calls"
  by (induction calls rule: rev_induct) (simp_all add: senders_def enumerate_append_eq sends_append)

lemma promises_senders:
  "cb_registrationPromises (batch_after (senders calls)) = replicate (length calls) True"
proof (induction calls rule: rev_induct)
  case Nil
  then show ?case by (simp add: senders_def batch_after_def createBatch_def)
next
  case (snoc c calls)
  obtain this url init where c: "c = (this, url, init)" by (cases c) auto
  have "batch_after (senders (calls @ [c]))
          = send_intercept (length calls) c (register (batch_after (senders calls)))"
    by (simp add: senders_snoc batch_after_def)
  with snoc c show ?case
    by (simp add: send_intercept_def register_def list_update_append replicate_append_same)
qed

lemma senders_settled: "registrations_settled (batch_after (senders calls))"
  by (simp add: registrations_settled_def promises_senders list_all_iff)

lemma requests_senders: "cb_requests (batch_after (senders calls)) = queued calls"
  by (simp add: requests_batch_after sends_senders)

lemma demo_batch_facts:
  shows demo_batch_settled: "registrations_settled (demo_batch n)"
    and demo_batch_requests: "cb_requests (demo_batch n) = queued (replicate n demo_call)"
  by (simp_all add: demo_batch_def senders_settled requests_senders)

subsection \<open>transmissions\<close>

text \<open>
  C8, as stated: \<open>N\<close> registered operations are flushed in \<open>ceil(N/20)\<close> transmissions.
  With 45 operations, each sent by an instance of its own, and a transport whose calls
  raise, the flush ends with the first call's exception after one transmission, not
  three.
\<close>

theorem flush_stops_at_failed_transport_counterexample:
  "flush_outcome (demo_env down_transport) 20 (demo_batch 45) = Some (Failed (Raised 503))
   \<and> length (transmissions (flush_trace (demo_env down_transport) 20 (demo_batch 45))) = 1
   \<and> (length (cb_requests (demo_batch 45)) + 19) div 20 = 3"
proof -
  let ?env = "demo_env down_transport"
  obtain frags where f:
    "formatRequests ?env (chunk_at 20 0 (queued (replicate 45 demo_call))) = Inr frags"
    using demo_env_formats by blast
  have g: "graphPost ?env 0 frags = Inl (Raised 503)"
    by (rule graphPost_transport_raises) (simp add: demo_env_def down_transport_def)
  have "0 * 20 < length (replicate 45 demo_call)" by simp
  from flush_fails_at(1,3) [OF _ this _ f g] show ?thesis
    by (simp add: flush_settled [OF demo_batch_settled] demo_batch_requests)
qed

text \<open>
  C8, amended: with \<open>maxChunkSize = 20\<close>, if every registration promise of the batch is
  settled, every chunk is encoded and the awaited transport call for it returns (the
  transport does not raise, the response has no top-level error and the decoder accepts
  its fragments), then flushing the \<open>N\<close> operations in the queue returns after exactly
  \<open>ceil(N/20)\<close> transmissions; the \<open>k\<close>-th transmission carries the encoding of the next
  at most 20 operations in registration order (\<open>take 20 (drop (k * 20) requests)\<close>), one
  fragment per operation, so each chunk is transmitted exactly once. In particular 45
  operations give three transmissions, of 20, 20 and 5 fragments. (A flush whose awaited
  call for a chunk raises makes no later transport call, \<open>flush_fails_at\<close>, and one with
  a pending registration promise makes none, \<open>flush_waits_for_registrations\<close>.)
\<close>

theorem flush_transmits_each_chunk_once:
  assumes "registrations_settled b"
    and "\<forall>k. k * 20 < length (cb_requests b) \<longrightarrow>
           (\<exists>frags parsed.
              formatRequests env (take 20 (drop (k * 20) (cb_requests b))) = Inr frags
              \<and> graphPost env k frags = Inr parsed)"
  shows "flush_outcome env 20 b = Some Returned
         \<and> length (transmissions (flush_trace env 20 b)) = (length (cb_requests b) + 19) div 20
         \<and> (\<forall>k<(length (cb_requests b) + 19) div 20.
               \<exists>frags. transmissions (flush_trace env 20 b) ! k = (k, frags)
                 \<and> formatRequests env (take 20 (drop (k * 20) (cb_requests b))) = Inr frags
                 \<and> length frags = min 20 (length (cb_requests b) - k * 20))"
proof -
  let ?reqs = "cb_requests b"
  note st = flush_settled [OF assms(1), of env 20]
  have a: "\<forall>k. k * 20 < length ?reqs \<longrightarrow> answered env k (chunk_at 20 k ?reqs)"
    using assms(2) answeredI(1) unfolding chunk_at_def by blast
  have m: "(0::nat) < 20" by simp
  note fl = flush_all_answered [OF m a]
  have each: "\<exists>frags. transmissions (trace_from env 20 ?reqs) ! k = (k, frags)
                 \<and> formatRequests env (take 20 (drop (k * 20) ?reqs)) = Inr frags
                 \<and> length frags = min 20 (length ?reqs - k * 20)"
    if k: "k < (length ?reqs + 19) div 20" for k
  proof -
    from k have "k * 20 < length ?reqs" using chunk_index [OF m, of k "length ?reqs"] by simp
    with assms(2) obtain frags where
      f: "formatRequests env (take 20 (drop (k * 20) ?reqs)) = Inr frags" by blast
    then have "frags_of env (chunk_at 20 k ?reqs) = frags"
      by (simp add: frags_of_def chunk_at_def)
    moreover have "length frags = min 20 (length ?reqs - k * 20)"
      using formatRequests_ids(1) [OF f] by simp
    ultimately show ?thesis using f k fl(2) by (simp add: add.commute)
  qed
  from fl(1) fl(2) each show ?thesis unfolding st by (simp add: add.commute)
qed

theorem flush_transmits_each_chunk_once_witness:
  "registrations_settled (demo_batch 45)
   \<and> flush_outcome (demo_env echo_transport) 20 (demo_batch 45) = Some Returned
   \<and> length (transmissions (flush_trace (demo_env echo_transport) 20 (demo_batch 45))) = 3
   \<and> map (\<lambda>t. length (snd t))
       (transmissions (flush_trace (demo_env echo_transport) 20 (demo_batch 45)))
       = [20, 20, 5]"
proof -
  let ?env = "demo_env echo_transport"
  let ?b = "demo_batch 45"
  let ?tx = "transmissions (flush_trace ?env 20 ?b)"
  have l: "length (cb_requests ?b) = 45" by (simp add: demo_batch_requests)
  have h: "\<forall>k. k * 20 < length (cb_requests ?b) \<longrightarrow>
      (\<exists>frags parsed. formatRequests ?env (take 20 (drop (k * 20) (cb_requests ?b))) = Inr frags
         \<and> graphPost ?env k frags = Inr parsed)"
    using demo_echo_answers by blast
  note t = flush_transmits_each_chunk_once [OF demo_batch_settled h]
  from t l have len: "length ?tx = 3" by simp
  from t l have "\<forall>k<3. length (snd (?tx ! k)) = min 20 (45 - k * 20)" by auto
  then have "length (snd (?tx ! 0)) = 20" "length (snd (?tx ! 1)) = 20"
    "length (snd (?tx ! 2)) = 5" by auto
  then have "map (\<lambda>t. length (snd t)) ?tx = [20, 20, 5]"
    by (subst list3 [OF len]) simp
  with len t demo_batch_settled show ?thesis by blast
qed

subsection \<open>settling the operations\<close>





text \<open>
  The deliveries of a flush in which every chunk is answered with a decoded array that
  covers the chunk, and no resolver raises: chunk \<open>k\<close> has each of its operations
  resolved once, in order, with the cell at its position.
\<close>

lemma deliveries_when_answered:
  assumes "0 < m"
    and "\<forall>k. k * m < length calls \<longrightarrow>
           answered env k (chunk_at m k (queued calls))
           \<and> solid (length (chunk_at m k (queued calls)))
                (cells_of env k (chunk_at m k (queued calls)))"
    and "\<forall>p c. resolve_raises env p c = None"
  shows "filter (is_delivery_of k) (trace_from env m (queued calls))
           = (if k * m < length calls
              then map (\<lambda>i. Resolve k (k * m + i)
                              (cells_of env k (chunk_at m k (queued calls)) ! i))
                     [0..<length (chunk_at m k (queued calls))]
              else [])"
proof -
  let ?ch = "\<lambda>k. chunk_at m k (queued calls)"
  from assms(2) have a: "\<forall>k. k * m < length (queued calls) \<longrightarrow> answered env k (?ch k)"
    by simp
  note fl = flush_all_answered(3) [OF assms(1) a]
  show ?thesis
  proof (cases "k * m < length calls")
    case True
    with assms(2) have s: "solid (length (?ch k)) (cells_of env k (?ch k))" by simp
    have "chain_events env k (?ch k) (entries (cells_of env k (?ch k)))
            = map (\<lambda>i. Resolve k (rr_promise (?ch k ! i)) (cells_of env k (?ch k) ! i))
                [0..<length (?ch k)]"
      using s by (intro chain_events_full [OF assms(3)]) (auto simp: solid_def)
    also have "\<dots> = map (\<lambda>i. Resolve k (k * m + i) (cells_of env k (?ch k) ! i))
                [0..<length (?ch k)]"
      by (rule map_cong) (simp_all add: promise_chunk_queued)
    finally show ?thesis using True fl [of k] by simp
  next
    case False
    then show ?thesis using fl [of k] by simp
  qed
qed


lemma promise_batch_after:
  "p < length (cb_requests (batch_after acts))
     \<Longrightarrow> rr_promise (cb_requests (batch_after acts) ! p) = p"
  by (simp add: requests_batch_after promise_queued)




text \<open>
  With two registered instances of which one never reaches \<open>send\<close>, the flush never
  ends, and the operation of the other instance is never settled.
\<close>

lemma pending_registration_stalls_flush:
  "length (cb_requests demo_stalled) = 1
   \<and> flush_outcome env m demo_stalled = None
   \<and> flush_trace env m demo_stalled = []"
proof -
  have "\<not> registrations_settled demo_stalled"
    by (simp add: demo_stalled_def batch_after_def createBatch_def register_def
        send_intercept_def demo_call_def registrations_settled_def)
  from flush_waits_for_registrations [OF this, of env m]
  show ?thesis
    by (simp add: demo_stalled_def batch_after_def createBatch_def register_def
        send_intercept_def demo_call_def)
qed

text \<open>
  With 45 operations and a transport that answers every request with status 600, the
  \<open>Response\<close> constructor raises while the first response is decoded: the flush fails
  after one transmission and settles nothing.
\<close>

lemma rejected_status_fails_flush:
  "flush_outcome (demo_env status600_transport) 20 (demo_batch 45)
     = Some (Failed (Platform RangeError))
   \<and> length (transmissions (flush_trace (demo_env status600_transport) 20 (demo_batch 45))) = 1
   \<and> resolve_calls 0 (flush_trace (demo_env status600_transport) 20 (demo_batch 45)) = 0
   \<and> reject_calls 0 (flush_trace (demo_env status600_transport) 20 (demo_batch 45)) = 0"
proof -
  let ?env = "demo_env status600_transport"
  obtain frags where f:
    "formatRequests ?env (chunk_at 20 0 (queued (replicate 45 demo_call))) = Inr frags"
    using demo_env_formats by blast
  from formatRequests_ids(1) [OF f] obtain fr frs where fr: "frags = fr # frs"
    by (cases frags) (auto simp: length_chunk_at)
  have "place_response arr ((echo fr)\<lparr>rstatus := 600\<rparr>) = Inl RangeError" for arr :: "nat cell list"
    by (simp add: place_response_def new_Response_def ushort_def)
  then have g: "graphPost ?env 0 frags = Inl (Platform RangeError)"
    by (simp add: graphPost_def BatchParse_def parseResponse_def demo_env_def
        status600_transport_def fr)
  have "0 * 20 < length (replicate 45 demo_call)" by simp
  from flush_fails_at [OF _ this _ f g] show ?thesis
    by (simp add: flush_settled [OF demo_batch_settled] demo_batch_requests)
qed

subsection \<open>a top-level error\<close>

lemma demo_error_after_first:
  "\<exists>frags parsed. formatRequests (demo_env error_after_first) ch = Inr frags
     \<and> graphPost (demo_env error_after_first) 0 frags = Inr parsed"
proof -
  obtain frags where f: "formatRequests (demo_env error_after_first) ch = Inr frags"
    using demo_env_formats by blast
  have "transport (demo_env error_after_first) 0 frags = echo_transport 0 frags"
    by (simp add: demo_env_def error_after_first_def)
  from echo_transport_answers [OF this f] f show ?thesis by auto
qed

text \<open>
  C4, as stated: a top-level error in the decoded response of a chunk rejects every
  operation of the chunk with the batch-processing error. With one operation, sent by
  the one registered instance, and a transport whose response carries a top-level
  error, the flush itself fails with that error and the rejecter of the operation is
  never called.
\<close>

theorem top_level_error_rejects_nothing_counterexample:
  "registrations_settled (demo_batch 1)
   \<and> map rr_promise (cb_requests (demo_batch 1)) = [0]
   \<and> flush_outcome (demo_env error_transport) 20 (demo_batch 1)
       = Some (Failed (BatchProcessingError ''BadRequest'' ''Invalid batch payload format.''))
   \<and> reject_calls 0 (flush_trace (demo_env error_transport) 20 (demo_batch 1)) = 0"
proof -
  let ?env = "demo_env error_transport"
  obtain frags where f: "formatRequests ?env (chunk_at 20 0 (queued [demo_call])) = Inr frags"
    using demo_env_formats by blast
  have g: "graphPost ?env 0 frags
             = Inl (BatchProcessingError ''BadRequest'' ''Invalid batch payload format.'')"
    by (rule graphPost_top_level_error [where raw = "\<lparr>gr_error = Some (''BadRequest'', ''Invalid batch payload format.''),
          gr_responses = [], gr_nextLink = None\<rparr>"])
       (simp_all add: demo_env_def error_transport_def)
  have "0 * 20 < length [demo_call]" by simp
  from flush_fails_at(1,2) [OF _ this _ f g] queued_props [of "[demo_call]"]
  show ?thesis
    by (simp add: flush_settled [OF demo_batch_settled] demo_batch_requests demo_batch_settled)
qed

text \<open>
  C4, amended: for a batch that registrations and intercepted sends have left with every
  registration promise settled (the promise of the operation at position \<open>i\<close> of the
  queue is promise \<open>i\<close>): if the chunks before chunk \<open>K\<close> are encoded and the awaited
  calls for them return, and the decoded response for chunk \<open>K\<close> carries a top-level
  error object, then the flush itself fails with the batch-processing error built from
  the error's code and message, and no operation of chunk \<open>K\<close> (nor of a later chunk) is
  resolved or rejected: for every promise from position \<open>K * m\<close> on, neither function
  is ever called.
\<close>

theorem top_level_error_fails_flush:
  assumes "b = batch_after acts" and "registrations_settled b"
    and "0 < m" and "K * m < length (cb_requests b)"
    and "\<forall>k<K. \<exists>frags parsed.
           formatRequests env (take m (drop (k * m) (cb_requests b))) = Inr frags
           \<and> graphPost env k frags = Inr parsed"
    and "formatRequests env (take m (drop (K * m) (cb_requests b))) = Inr frags"
    and "transport env K frags = Inr raw" and "gr_error raw = Some (code, message)"
  shows "flush_outcome env m b = Some (Failed (BatchProcessingError code message))
         \<and> (\<forall>i<length (cb_requests b). rr_promise (cb_requests b ! i) = i)
         \<and> (\<forall>p. K * m \<le> p \<longrightarrow>
               resolve_calls p (flush_trace env m b) = 0
               \<and> reject_calls p (flush_trace env m b) = 0)"
proof -
  have q: "cb_requests b = queued (sends acts)"
    using assms(1) by (simp add: requests_batch_after)
  have K: "K * m < length (sends acts)" using assms(4) unfolding q by simp
  have before: "\<forall>k<K. answered env k (chunk_at m k (queued (sends acts)))"
    using assms(5) answeredI(1) unfolding chunk_at_def q by blast
  have f: "formatRequests env (chunk_at m K (queued (sends acts))) = Inr frags"
    using assms(6) unfolding q by (simp add: chunk_at_def)
  have g: "graphPost env K frags = Inl (BatchProcessingError code message)"
    by (rule graphPost_top_level_error [OF assms(7,8)])
  have "rr_promise (cb_requests b ! i) = i" if "i < length (cb_requests b)" for i
    using that unfolding q by (simp add: promise_queued)
  with flush_fails_at(1,2) [OF assms(3) K before f g] show ?thesis
    unfolding flush_settled [OF assms(2)] q by simp
qed

theorem top_level_error_fails_flush_witness:
  "demo_batch 45 = batch_after (senders (replicate 45 demo_call))
   \<and> registrations_settled (demo_batch 45)
   \<and> length (cb_requests (demo_batch 45)) = 45
   \<and> flush_outcome (demo_env error_after_first) 20 (demo_batch 45)
       = Some (Failed (BatchProcessingError ''BadRequest'' ''Invalid batch payload format.''))
   \<and> rr_promise (cb_requests (demo_batch 45) ! 20) = 20
   \<and> resolve_calls 20 (flush_trace (demo_env error_after_first) 20 (demo_batch 45)) = 0
   \<and> reject_calls 20 (flush_trace (demo_env error_after_first) 20 (demo_batch 45)) = 0
   \<and> resolve_calls 39 (flush_trace (demo_env error_after_first) 20 (demo_batch 45)) = 0
   \<and> reject_calls 39 (flush_trace (demo_env error_after_first) 20 (demo_batch 45)) = 0"
proof -
  let ?env = "demo_env error_after_first"
  let ?b = "demo_batch 45"
  have l: "length (cb_requests ?b) = 45" by (simp add: demo_batch_requests)
  have m: "(0::nat) < 20" and K: "1 * 20 < length (cb_requests ?b)" by (simp_all add: l)
  have before: "\<forall>k<1. \<exists>frags parsed.
           formatRequests ?env (take 20 (drop (k * 20) (cb_requests ?b))) = Inr frags
           \<and> graphPost ?env k frags = Inr parsed"
    using demo_error_after_first by simp
  obtain frags where
    f: "formatRequests ?env (take 20 (drop (1 * 20) (cb_requests ?b))) = Inr frags"
    using demo_env_formats by blast
  have t: "transport ?env 1 frags
             = Inr \<lparr>gr_error = Some (''BadRequest'', ''Invalid batch payload format.''),
                    gr_responses = [], gr_nextLink = None\<rparr>"
    by (simp add: demo_env_def error_after_first_def error_transport_def)
  from top_level_error_fails_flush [OF demo_batch_def demo_batch_settled m K before f t] l
    demo_batch_settled
  show ?thesis by (simp add: demo_batch_def)
qed

subsection \<open>the order of deliveries\<close>

lemma chain_events_reject:
  assumes "i < length (chain_events env k ch es)" "chain_events env k ch es ! i = Reject j p x"
  shows "0 < i \<and> (\<exists>c. chain_events env k ch es ! (i - 1) = Resolve k p c
                       \<and> resolve_raises env p c = Some x)"
  using assms
proof (induction es arbitrary: i)
  case Nil
  then show ?case by simp
next
  case (Cons a es)
  obtain n c where a: "a = (n, c)" by (cases a) auto
  obtain evs r where d: "deliver env k ch (n, c) = (evs, r)"
    by (cases "deliver env k ch (n, c)") auto
  let ?rest = "if r then chain_events env k ch es else []"
  have ce: "chain_events env k ch (a # es) = evs @ ?rest" using a d by simp
  show ?case
  proof (cases "i < length evs")
    case True
    with Cons.prems(2) ce have "evs ! i = Reject j p x" by (simp add: nth_append)
    with deliver_shape [OF d] True show ?thesis
      unfolding ce by (auto simp: nth_append nth_Cons' split: if_splits)
  next
    case False
    let ?i = "i - length evs"
    from False Cons.prems ce have r: "r" and i': "?i < length (chain_events env k ch es)"
      and at: "chain_events env k ch es ! ?i = Reject j p x"
      by (auto simp: nth_append split: if_splits)
    from Cons.IH [OF i' at] obtain c' where
      c': "0 < ?i" "chain_events env k ch es ! (?i - 1) = Resolve k p c'"
      "resolve_raises env p c' = Some x" by auto
    from c'(1) False have "i - 1 - length evs = ?i - 1" "\<not> i - 1 < length evs" "0 < i" by auto
    with c' r show ?thesis unfolding ce by (auto simp: nth_append)
  qed
qed

lemma transmissions_member: "(k, frags) \<in> set (transmissions tr) \<Longrightarrow> Transmit k frags \<in> set tr"
  by (induction tr rule: transmissions.induct) auto

text \<open>
  What holds of every flush with a positive chunk size, from the point where the
  registration promises are settled. Within one chunk the resolver and rejecter calls are
  in ascending registration order (the promise numbers of the chunk's calls never
  decrease, and those of its resolver calls increase strictly), and a rejecter is called
  only right after the resolver of the same operation has raised, so each resolver is
  called only after the one before it has returned or raised. Across chunks, the
  transport calls are made one after the other in chunk order, and every delivery of
  chunk \<open>N\<close> happens after the transport call for chunk \<open>N + 1\<close>, when there is one.
\<close>

lemma deliveries_within_chunk_in_order:
  assumes "0 < m"
  shows "outcome_from env m (queued calls) \<noteq> None
         \<and> (\<forall>k. sorted_wrt (\<le>)
                  (map event_promise
                     (filter (is_delivery_of k) (trace_from env m (queued calls))))
                \<and> sorted_wrt (<)
                    (map event_promise
                       (filter is_resolve
                          (filter (is_delivery_of k) (trace_from env m (queued calls)))))
                \<and> (\<forall>i p x.
                      i < length (filter (is_delivery_of k) (trace_from env m (queued calls)))
                      \<and> filter (is_delivery_of k) (trace_from env m (queued calls)) ! i
                          = Reject k p x \<longrightarrow>
                      0 < i
                      \<and> (\<exists>c. filter (is_delivery_of k) (trace_from env m (queued calls))
                                 ! (i - 1) = Resolve k p c
                               \<and> resolve_raises env p c = Some x)))
         \<and> (\<exists>n. map fst (transmissions (trace_from env m (queued calls))) = [0..<n])
         \<and> (\<forall>k. precedes (is_transmit_of (Suc k)) (is_delivery_of k)
                  (trace_from env m (queued calls)))"
proof -
  let ?reqs = "queued calls"
  let ?cs = "chunks m ?reqs"
  let ?tr = "trace_from env m ?reqs"
  let ?D = "\<lambda>k. filter (is_delivery_of k) ?tr"
  have out: "outcome_from env m ?reqs \<noteq> None"
    using assms by (simp add: outcome_from_eq)
  have del: "?D k = (if k < completed env 0 ?cs
                     then chain_events env k (?cs ! k) (entries (cells_of env k (?cs ! k)))
                     else [])" for k
    using assms by (simp add: trace_from_eq flush_end_deliveries)
  have within: "sorted_wrt (\<le>) (map event_promise (?D k))
                \<and> sorted_wrt (<) (map event_promise (filter is_resolve (?D k)))
                \<and> (\<forall>i p x. i < length (?D k) \<and> ?D k ! i = Reject k p x \<longrightarrow>
                      0 < i \<and> (\<exists>c. ?D k ! (i - 1) = Resolve k p c
                                     \<and> resolve_raises env p c = Some x))" for k
  proof (cases "k < completed env 0 ?cs")
    case True
    then have "k < length ?cs" using completed_le [of env 0 ?cs] by simp
    then have ck: "?cs ! k = chunk_at m k ?reqs" by (simp add: nth_chunks)
    have pr: "\<forall>i<length (?cs ! k). rr_promise ((?cs ! k) ! i) = k * m + i"
      unfolding ck by (simp add: promise_chunk_queued)
    let ?ce = "chain_events env k (?cs ! k) (entries (cells_of env k (?cs ! k)))"
    have D: "?D k = ?ce" using True by (simp only: del if_True)
    have "0 < i \<and> (\<exists>c. ?ce ! (i - 1) = Resolve k p c \<and> resolve_raises env p c = Some x)"
      if "i < length ?ce \<and> ?ce ! i = Reject k p x" for i p x
      using that chain_events_reject [of i env k "?cs ! k" _ k p x] by blast
    with chain_events_ascending [OF entries_sorted pr, of env k "cells_of env k (?cs ! k)"]
    show ?thesis unfolding D by blast
  next
    case False
    then show ?thesis unfolding del by simp
  qed
  have tx: "\<exists>n. map fst (transmissions ?tr) = [0..<n]"
    using run_chunks_transmit_order [OF inv_start, of env ?cs] assms
    by (simp add: trace_from_eq flush_end_transmissions start_def)
  have "handed_over ?tr" using assms by (simp add: trace_from_eq flush_end_ord)
  then have after: "\<forall>k. precedes (is_transmit_of (Suc k)) (is_delivery_of k) ?tr"
    by (simp add: handed_over_def)
  from out within tx after show ?thesis by blast
qed

text \<open>
  C3. The spec has every delivery of chunk \<open>N\<close> complete before the transmission of chunk
  \<open>N + 1\<close> begins, and the source says of its chain of callbacks that it "ensures that we
  resolve the batched requests in the order we expect". The chain is not awaited. With 45
  operations, each sent by an instance of its own, a chunk size of 20 and a transport
  that answers every request, the flush returns, a delivery of chunk 0 comes after the
  transport call for chunk 1, and no delivery of chunk 0 comes before it.
\<close>

theorem next_chunk_transmitted_before_deliveries:
  "registrations_settled (demo_batch 45)
   \<and> flush_outcome (demo_env echo_transport) 20 (demo_batch 45) = Some Returned
   \<and> (\<exists>i j. i < j \<and> j < length (flush_trace (demo_env echo_transport) 20 (demo_batch 45))
         \<and> is_transmit_of 1 (flush_trace (demo_env echo_transport) 20 (demo_batch 45) ! i)
         \<and> is_delivery_of 0 (flush_trace (demo_env echo_transport) 20 (demo_batch 45) ! j))
   \<and> \<not> (\<exists>i j. i < j \<and> j < length (flush_trace (demo_env echo_transport) 20 (demo_batch 45))
         \<and> is_delivery_of 0 (flush_trace (demo_env echo_transport) 20 (demo_batch 45) ! i)
         \<and> is_transmit_of 1 (flush_trace (demo_env echo_transport) 20 (demo_batch 45) ! j))"
proof -
  let ?env = "demo_env echo_transport"
  let ?calls = "replicate 45 demo_call"
  let ?tr = "trace_from ?env 20 (queued ?calls)"
  have m: "(0::nat) < 20" by simp
  have ans: "\<forall>k. k * 20 < length ?calls \<longrightarrow>
           answered ?env k (chunk_at 20 k (queued ?calls))
           \<and> solid (length (chunk_at 20 k (queued ?calls)))
                (cells_of ?env k (chunk_at 20 k (queued ?calls)))"
  proof (intro allI impI)
    fix k
    obtain frags raw parsed where
      "formatRequests ?env (chunk_at 20 k (queued ?calls)) = Inr frags"
      "transport ?env k frags = Inr raw" "graphPost ?env k frags = Inr parsed"
      "length (chunk_at 20 k (queued ?calls)) \<le> length (gr_responses raw)"
      using demo_echo_answers by blast
    from answeredI(1) [OF this(1,3)] answered_solid [OF this(1,2,3)] this(4)
    show "answered ?env k (chunk_at 20 k (queued ?calls))
           \<and> solid (length (chunk_at 20 k (queued ?calls)))
                (cells_of ?env k (chunk_at 20 k (queued ?calls)))"
      by (auto intro: solid_mono)
  qed
  have r: "\<forall>p c. resolve_raises ?env p c = None" by (simp add: demo_env_def)
  from ans have a: "\<forall>k. k * 20 < length (queued ?calls)
      \<longrightarrow> answered ?env k (chunk_at 20 k (queued ?calls))" by simp
  note fl = flush_all_answered [OF m a]
  have "filter (is_delivery_of 0) ?tr \<noteq> []"
    using deliveries_when_answered [OF m ans r, of 0] by (simp add: length_chunk_at)
  then obtain d where d: "d \<in> set ?tr" "is_delivery_of 0 d"
    by (auto simp: filter_empty_conv)
  then obtain j where j: "j < length ?tr" "?tr ! j = d" by (auto simp: in_set_conv_nth)
  have "transmissions ?tr
          = map (\<lambda>k. (k, frags_of ?env (chunk_at 20 k (queued ?calls)))) [0..<3]"
    using fl(2) by simp
  then have "(1, frags_of ?env (chunk_at 20 1 (queued ?calls))) \<in> set (transmissions ?tr)"
    by (simp add: numeral_3_eq_3)
  from transmissions_member [OF this] obtain i where
    i: "i < length ?tr" "is_transmit_of 1 (?tr ! i)" by (auto simp: in_set_conv_nth)
  have "handed_over ?tr" using m by (simp add: trace_from_eq flush_end_ord)
  then have p: "precedes (is_transmit_of (Suc 0)) (is_delivery_of 0) ?tr"
    by (simp add: handed_over_def)
  with i j d have "i < j" by (auto simp: precedes_def)
  with i j d have after: "\<exists>i j. i < j \<and> j < length ?tr
         \<and> is_transmit_of 1 (?tr ! i) \<and> is_delivery_of 0 (?tr ! j)" by auto
  have none: "\<not> (\<exists>i j. i < j \<and> j < length ?tr
         \<and> is_delivery_of 0 (?tr ! i) \<and> is_transmit_of 1 (?tr ! j))"
  proof
    assume "\<exists>i j. i < j \<and> j < length ?tr
         \<and> is_delivery_of 0 (?tr ! i) \<and> is_transmit_of 1 (?tr ! j)"
    then obtain i j where "i < j" "j < length ?tr" "is_delivery_of 0 (?tr ! i)"
      "is_transmit_of 1 (?tr ! j)" by blast
    then have "i < length ?tr \<and> j < length ?tr \<and> is_transmit_of (Suc 0) (?tr ! j)
        \<and> is_delivery_of 0 (?tr ! i)" by simp
    with p have "j < i" unfolding precedes_def by blast
    with \<open>i < j\<close> show False by simp
  qed
  have st: "flush_trace ?env 20 (demo_batch 45) = ?tr"
    "flush_outcome ?env 20 (demo_batch 45) = outcome_from ?env 20 (queued ?calls)"
    by (simp_all only: flush_settled [OF demo_batch_settled] demo_batch_requests)
  from fl(1) after none demo_batch_settled show ?thesis
    unfolding st by blast
qed

text \<open>
  With a transport that answers quickly the chains of two chunks run interleaved. With
  six operations, a chunk size of 3 and one queued job run during each awaited call, the
  transport calls for both chunks come first, and the resolver of the first operation of
  the second chunk is called before the resolver of the last operation of the first.
\<close>

lemma deliveries_of_chunks_interleave:
  "map fst (transmissions (flush_trace fast_env 3 (demo_batch 6))) = [0, 1]
   \<and> map is_resolve (flush_trace fast_env 3 (demo_batch 6))
       = [False, False, True, True, True, True, True, True]
   \<and> map event_promise (filter is_resolve (flush_trace fast_env 3 (demo_batch 6)))
       = [0, 1, 3, 2, 4, 5]"
proof -
  have q: "cb_requests (demo_batch 6)
             = map (\<lambda>n. \<lparr>rr_queryable = (), rr_url = ''https://graph.microsoft.com/v1.0/me'',
                          rr_init = demo_init, rr_promise = n\<rparr>) [0, 1, 2, 3, 4, 5]"
    by (simp add: demo_batch_requests queued_def demo_call_def eval_nat_numeral)
  have st: "flush_trace fast_env 3 (demo_batch 6)
              = trace_from fast_env 3 (cb_requests (demo_batch 6))"
    by (rule flush_settled(2) [OF demo_batch_settled])
  show ?thesis
    unfolding st unfolding q trace_from_def flush_trace_def execute_def
    by (simp add: execute_loop.simps process_chunk_def graphPost_def BatchParse_def
        parseResponse_def fast_env_def demo_env_def echo_transport_def Let_def
        schedule_def entries_def enumerate_eq_zip tick_def deliver_def drain.simps
        formatRequests_def formatRequest_def demo_init_def place_response_def
        parseInt10_numToString array_set_def new_Response_def echo_def ushort_def
        isNullBodyStatus_def)
qed

subsection \<open>round trip\<close>


lemma demo_two_encoded:
  "formatRequests (demo_env tr) (queued [demo_call, demo_call])
     = Inr [demo_fragment, demo_fragment2]"
  by (simp add: queued_def demo_call_def demo_init_def formatRequests_def
      formatRequest_def demo_env_def makeUrlRelative_def demo_isAbsolute_def numToString_one
      numToString_two demo_fragment_def demo_fragment2_def)

















subsection \<open>a response with fewer fragments\<close>

text \<open>
  A response with fewer fragments than the chunk has requests: with two operations and a
  transport that answers the first request only, the flush returns and neither function
  of the second operation's promise is ever called.
\<close>

lemma short_response_leaves_operation_unsettled:
  "map rr_promise (cb_requests (demo_batch 2)) = [0, 1]
   \<and> flush_outcome (demo_env short_transport) 20 (demo_batch 2) = Some Returned
   \<and> resolve_calls 1 (flush_trace (demo_env short_transport) 20 (demo_batch 2)) = 0
   \<and> reject_calls 1 (flush_trace (demo_env short_transport) 20 (demo_batch 2)) = 0"
proof -
  let ?env = "demo_env short_transport"
  let ?reqs = "queued [demo_call, demo_call]"
  let ?tr = "trace_from ?env 20 ?reqs"
  let ?raw = "\<lparr>gr_error = None, gr_responses = [echo demo_fragment], gr_nextLink = None\<rparr>"
  have len: "length ?reqs = 2" using queued_props [of "[demo_call, demo_call]"] by simp
  have ch: "chunk_at 20 k ?reqs = ?reqs" if "k * 20 < length ?reqs" for k
    using that len by (cases k) (simp_all add: chunk_at_def)
  have f: "formatRequests ?env ?reqs = Inr [demo_fragment, demo_fragment2]"
    by (rule demo_two_encoded)
  have t: "transport ?env k [demo_fragment, demo_fragment2] = Inr ?raw" for k
    by (simp add: demo_env_def short_transport_def)
  have "rid (echo demo_fragment) = numToString (Suc 0)"
    by (simp add: echo_def demo_fragment_def numToString_one)
  moreover have "new_Response (echo demo_fragment) = Inr (BodyResponse (echo demo_fragment))"
    using accepted_echo [of demo_fragment] by (simp add: accepted_iff echo_def)
  ultimately have "place_response [Null] (echo demo_fragment)
               = Inr ([Null][0 := Resp (BodyResponse (echo demo_fragment))])"
    by (intro place_in_range) (simp_all add: echo_def)
  then have g: "graphPost ?env k [demo_fragment, demo_fragment2]
      = Inr \<lparr>pr_nextLink = None, pr_responses = [Resp (BodyResponse (echo demo_fragment))]\<rparr>" for k
    using t [of k] by (simp add: graphPost_def BatchParse_def parseResponse_def)
  have cells: "cells_of ?env k ?reqs = [Resp (BodyResponse (echo demo_fragment))]" for k
    using answeredI(3) [OF f g [of k]] by simp
  have a: "\<forall>k. k * 20 < length ?reqs \<longrightarrow> answered ?env k (chunk_at 20 k ?reqs)"
    using answeredI(1) [OF f g] by (simp add: ch)
  have m: "(0::nat) < 20" by simp
  note fl = flush_all_answered [OF m a]
  have chain: "set (filter (is_delivery_of k) ?tr)
                 \<subseteq> {Resolve k (rr_promise (?reqs ! 0)) (Resp (BodyResponse (echo demo_fragment)))}" for k
  proof (cases "k * 20 < length ?reqs")
    case True
    have "resolve_raises ?env p c = None" for p c by (simp add: demo_env_def)
    then have "chain_events ?env k ?reqs (entries (cells_of ?env k ?reqs))
            = [Resolve k (rr_promise (?reqs ! 0)) (Resp (BodyResponse (echo demo_fragment)))]"
      using len by (simp add: cells entries_def deliver_def)
    with fl(3) [of k] True show ?thesis by (simp add: ch)
  next
    case False
    with fl(3) [of k] show ?thesis by simp
  qed
  have p0: "rr_promise (?reqs ! 0) = 0" by (rule promise_queued) simp
  have "\<not> (resolves 1 ev \<or> rejects 1 ev)" if "ev \<in> set ?tr" for ev
  proof
    assume "resolves 1 ev \<or> rejects 1 ev"
    from delivery_in_own_chunk [OF that this] chain p0 show False by force
  qed
  then have "resolve_calls 1 ?tr = 0 \<and> reject_calls 1 ?tr = 0"
    by (auto simp: resolve_calls_def reject_calls_def filter_empty_conv)
  moreover have "cb_requests (demo_batch 2) = ?reqs"
    by (simp add: demo_batch_requests numeral_2_eq_2)
  moreover have "map rr_promise ?reqs = [0, 1]"
    using queued_props [of "[demo_call, demo_call]"] by (simp add: upt_rec)
  ultimately show ?thesis using fl(1)
    by (simp add: flush_settled [OF demo_batch_settled])
qed

subsection \<open>addresses\<close>

lemma indexOf_first_occurrence:
  "prefix pat (drop i s) \<Longrightarrow> i \<le> length s \<Longrightarrow> (\<forall>j<i. \<not> prefix pat (drop j s))
   \<Longrightarrow> indexOf s pat = Some i"
proof (induction s arbitrary: i)
  case Nil
  then show ?case by simp
next
  case (Cons c cs)
  show ?case
  proof (cases i)
    case 0
    with Cons.prems show ?thesis by simp
  next
    case (Suc i')
    with Cons.prems have no: "\<not> prefix pat (c # cs)" by fastforce
    have "\<forall>j<i'. \<not> prefix pat (drop j cs)"
    proof (intro allI impI)
      fix j
      assume "j < i'"
      then have "Suc j < i" using Suc by simp
      with Cons.prems(3) have "\<not> prefix pat (drop (Suc j) (c # cs))" by blast
      then show "\<not> prefix pat (drop j cs)" by simp
    qed
    with Cons.prems Suc have "indexOf cs pat = Some i'" by (intro Cons.IH) auto
    with no Suc show ?thesis by simp
  qed
qed

lemma indexOf_absent: "(\<forall>j. \<not> prefix pat (drop j s)) \<Longrightarrow> indexOf s pat = None"
proof (induction s)
  case Nil
  from Nil [rule_format, of 0] show ?case by simp
next
  case (Cons c cs)
  from Cons.prems [rule_format, of 0] have no: "\<not> prefix pat (c # cs)" by simp
  have "\<forall>j. \<not> prefix pat (drop j cs)"
  proof
    fix j
    from Cons.prems [rule_format, of "Suc j"] show "\<not> prefix pat (drop j cs)" by simp
  qed
  with Cons.IH no show ?case by simp
qed

lemma indexOf_SomeD:
  "indexOf s pat = Some i \<Longrightarrow>
   prefix pat (drop i s) \<and> i \<le> length s \<and> (\<forall>j<i. \<not> prefix pat (drop j s))"
proof (induction s arbitrary: i)
  case Nil
  then show ?case by (simp split: if_splits)
next
  case (Cons c cs)
  show ?case
  proof (cases "prefix pat (c # cs)")
    case True
    with Cons.prems show ?thesis by simp
  next
    case False
    with Cons.prems obtain i' where i': "i = Suc i'" "indexOf cs pat = Some i'" by auto
    from Cons.IH [OF i'(2)] have ih: "prefix pat (drop i' cs)" "i' \<le> length cs"
      "\<forall>j<i'. \<not> prefix pat (drop j cs)" by auto
    have "\<not> prefix pat (drop j (c # cs))" if "j < i" for j
      using that False ih(3) i'(1) by (cases j) auto
    with ih i'(1) show ?thesis by simp
  qed
qed

lemma indexOf_NoneD: "indexOf s pat = None \<Longrightarrow> \<not> prefix pat (drop j s)"
proof (induction s arbitrary: j)
  case Nil
  then show ?case by (simp split: if_splits)
next
  case (Cons c cs)
  from Cons.prems have no: "\<not> prefix pat (c # cs)" and r: "indexOf cs pat = None"
    by (auto split: if_splits)
  show ?case using no Cons.IH [OF r] by (cases j) auto
qed

text \<open>
  C9, as stated: every address is rewritten to be relative, any absolute scheme and host
  being stripped. An absolute address with neither version segment comes back as it
  was, scheme and host included.
\<close>

theorem makeUrlRelative_keeps_host_counterexample:
  "demo_isAbsolute ''https://graph.microsoft.com/me''
   \<and> makeUrlRelative demo_isAbsolute ''https://graph.microsoft.com/me''
       = ''https://graph.microsoft.com/me''"
  by (simp add: makeUrlRelative_def demo_isAbsolute_def)

text \<open>
  C9, amended: an address that \<open>isUrlAbsolute\<close> rejects is returned unchanged. Of an
  absolute address, encoding returns what follows the first \<open>/v1.0\<close> of a \<open>/v1.0/\<close>
  segment if there is one (the scheme, the host and \<open>/v1.0\<close> are stripped, the slash
  after it stays); otherwise what follows the first \<open>/beta/\<close> segment if there is one
  (the scheme, the host and \<open>/beta/\<close> are stripped); otherwise the address unchanged.
  In each case what follows is preserved as it is.
\<close>

theorem makeUrlRelative_cases:
  "(\<not> isAbs url \<longrightarrow> makeUrlRelative isAbs url = url)
   \<and> (isAbs url \<and> url = pre @ ''/v1.0/'' @ rest
        \<and> (\<forall>j<length pre. \<not> prefix ''/v1.0/'' (drop j url)) \<longrightarrow>
        makeUrlRelative isAbs url = ''/'' @ rest)
   \<and> (isAbs url \<and> (\<forall>j. \<not> prefix ''/v1.0/'' (drop j url)) \<and> url = pre' @ ''/beta/'' @ rest'
        \<and> (\<forall>j<length pre'. \<not> prefix ''/beta/'' (drop j url)) \<longrightarrow>
        makeUrlRelative isAbs url = rest')
   \<and> (isAbs url \<and> (\<forall>j. \<not> prefix ''/v1.0/'' (drop j url))
        \<and> (\<forall>j. \<not> prefix ''/beta/'' (drop j url)) \<longrightarrow>
        makeUrlRelative isAbs url = url)"
proof (intro conjI impI)
  assume "\<not> isAbs url"
  then show "makeUrlRelative isAbs url = url" by (simp add: makeUrlRelative_def)
next
  assume a: "isAbs url \<and> url = pre @ ''/v1.0/'' @ rest
        \<and> (\<forall>j<length pre. \<not> prefix ''/v1.0/'' (drop j url))"
  then have abs: "isAbs url" and u: "url = pre @ ''/v1.0/'' @ rest"
    and first: "\<forall>j<length pre. \<not> prefix ''/v1.0/'' (drop j url)" by blast+
  have "prefix ''/v1.0/'' (drop (length pre) url)" "length pre \<le> length url"
    by (simp_all add: u)
  then have "indexOf url ''/v1.0/'' = Some (length pre)"
    using first by (rule indexOf_first_occurrence)
  with abs have "makeUrlRelative isAbs url = drop (length pre + 5) url"
    by (simp add: makeUrlRelative_def)
  also have "\<dots> = ''/'' @ rest" by (simp add: u)
  finally show "makeUrlRelative isAbs url = ''/'' @ rest" .
next
  assume a: "isAbs url \<and> (\<forall>j. \<not> prefix ''/v1.0/'' (drop j url)) \<and> url = pre' @ ''/beta/'' @ rest'
        \<and> (\<forall>j<length pre'. \<not> prefix ''/beta/'' (drop j url))"
  then have abs: "isAbs url" and u: "url = pre' @ ''/beta/'' @ rest'"
    and none: "\<forall>j. \<not> prefix ''/v1.0/'' (drop j url)"
    and first: "\<forall>j<length pre'. \<not> prefix ''/beta/'' (drop j url)" by blast+
  have "prefix ''/beta/'' (drop (length pre') url)" "length pre' \<le> length url"
    by (simp_all add: u)
  then have "indexOf url ''/beta/'' = Some (length pre')"
    using first by (rule indexOf_first_occurrence)
  moreover have "indexOf url ''/v1.0/'' = None" using none by (rule indexOf_absent)
  ultimately have "makeUrlRelative isAbs url = drop (length pre' + 6) url"
    using abs by (simp add: makeUrlRelative_def)
  also have "\<dots> = rest'" by (simp add: u)
  finally show "makeUrlRelative isAbs url = rest'" .
next
  assume a: "isAbs url \<and> (\<forall>j. \<not> prefix ''/v1.0/'' (drop j url))
        \<and> (\<forall>j. \<not> prefix ''/beta/'' (drop j url))"
  then have "indexOf url ''/v1.0/'' = None" "indexOf url ''/beta/'' = None"
    by (auto intro: indexOf_absent)
  with a show "makeUrlRelative isAbs url = url" by (simp add: makeUrlRelative_def)
qed

theorem makeUrlRelative_cases_witness:
  "\<not> demo_isAbsolute ''/v1.0/me''
   \<and> makeUrlRelative demo_isAbsolute ''/v1.0/me'' = ''/v1.0/me''
   \<and> demo_isAbsolute ''https://graph.microsoft.com/v1.0/me''
   \<and> makeUrlRelative demo_isAbsolute ''https://graph.microsoft.com/v1.0/me'' = ''/me''
   \<and> demo_isAbsolute ''https://graph.microsoft.com/beta/me''
   \<and> makeUrlRelative demo_isAbsolute ''https://graph.microsoft.com/beta/me'' = ''me''"
proof -
  let ?host = "''https://graph.microsoft.com''"
  have r: "\<not> demo_isAbsolute ''/v1.0/me''" by (simp add: demo_isAbsolute_def)
  have a: "demo_isAbsolute ''https://graph.microsoft.com/v1.0/me''"
    "demo_isAbsolute ''https://graph.microsoft.com/beta/me''"
    by (simp_all add: demo_isAbsolute_def)
  have "indexOf ''https://graph.microsoft.com/v1.0/me'' ''/v1.0/'' = Some (length ?host)"
    by simp
  from indexOf_SomeD [OF this]
  have v: "\<forall>j<length ?host. \<not> prefix ''/v1.0/'' (drop j ''https://graph.microsoft.com/v1.0/me'')"
    by blast
  have "indexOf ''https://graph.microsoft.com/beta/me'' ''/v1.0/'' = None" by simp
  then have nv: "\<forall>j. \<not> prefix ''/v1.0/'' (drop j ''https://graph.microsoft.com/beta/me'')"
    using indexOf_NoneD by blast
  have "indexOf ''https://graph.microsoft.com/beta/me'' ''/beta/'' = Some (length ?host)"
    by simp
  from indexOf_SomeD [OF this]
  have b: "\<forall>j<length ?host. \<not> prefix ''/beta/'' (drop j ''https://graph.microsoft.com/beta/me'')"
    by blast
  have s1: "''https://graph.microsoft.com/v1.0/me'' = ?host @ ''/v1.0/'' @ ''me''" by simp
  have s2: "''https://graph.microsoft.com/beta/me'' = ?host @ ''/beta/'' @ ''me''" by simp
  from makeUrlRelative_cases [of demo_isAbsolute "''/v1.0/me''"] r
  have 1: "makeUrlRelative demo_isAbsolute ''/v1.0/me'' = ''/v1.0/me''" by blast
  from makeUrlRelative_cases [of demo_isAbsolute "''https://graph.microsoft.com/v1.0/me''"
      ?host "''me''"] a(1) s1 v
  have 2: "makeUrlRelative demo_isAbsolute ''https://graph.microsoft.com/v1.0/me'' = ''/'' @ ''me''"
    by blast
  from makeUrlRelative_cases [of demo_isAbsolute "''https://graph.microsoft.com/beta/me''"
      _ _ ?host "''me''"] a(2) s2 nv b
  have 3: "makeUrlRelative demo_isAbsolute ''https://graph.microsoft.com/beta/me'' = ''me''"
    by blast
  from r a 1 2 3 show ?thesis by simp
qed


end
